theory Spec2Isabelle
  imports Complex_Main "HOL-Library.Char_ord" "HOL-Library.List_Lexorder" "HOL-Library.Log_Nat"
begin

section \<open>The figure layout engine of FigureAgent\<close>

text \<open>
  A shallow embedding of \<^verbatim>\<open>FigureAgent/types.py\<close> and
  \<^verbatim>\<open>FigureAgent/layout_figure.py\<close>.

  Conventions of the embedding:
  \<^item> a Python \<^verbatim>\<open>str\<close> is a \<open>string\<close> (the list of its UTF-8 bytes); the order
    on strings is the lexicographic order of \<open>HOL-Library.List_Lexorder\<close> over the
    byte order of \<open>HOL-Library.Char_ord\<close>, which is the code point order Python uses;
  \<^item> a Python \<^verbatim>\<open>int\<close> is an \<open>int\<close>;
  \<^item> a Python \<^verbatim>\<open>float\<close> is a \<open>real\<close>. \<open>compute_layout\<close> computes the coordinates
    in exact arithmetic; \<open>compute_layout_fl\<close> is the same code with every float
    operation rounded, and \<open>round_double\<close> is the rounding of IEEE 754 binary64, the
    format of a Python \<^verbatim>\<open>float\<close>. Infinities, NaN and overflow are not modelled;
  \<^item> a \<^verbatim>\<open>dict\<close> is an association list in insertion order with distinct keys
    (\<open>dict_set\<close> overwrites in place or appends, as Python does);
  \<^item> an exception is a value \<open>Inl e\<close> of the sum type \<open>py_error + 'a\<close>;
  \<^item> the \<^verbatim>\<open>while queue:\<close> loop of \<^verbatim>\<open>_assign_layers\<close> is a
    \<^theory_text>\<open>partial_function (option)\<close>: the value \<open>None\<close> means that the loop
    never leaves.
\<close>

subsection \<open>types.py\<close>

record FigureNode =
  "identifier" :: string
  label :: string
  node_type :: string
  metadata :: "(string \<times> string) list"

text \<open>The field \<^verbatim>\<open>label\<close> of an edge is \<open>edge_label\<close>: \<open>label\<close> is taken by the node.\<close>

record FigureEdge =
  source :: string
  target :: string
  edge_label :: "string option"

record FigurePlan =
  nodes :: "FigureNode list"
  edges :: "FigureEdge list"
  title :: "string option"
  description :: "string option"

text \<open>
  \<^verbatim>\<open>class PositionedNode(FigureNode)\<close> adds the fields \<^verbatim>\<open>x\<close> and \<^verbatim>\<open>y\<close>;
  they are \<open>pos_x\<close> and \<open>pos_y\<close> here, so that \<open>x\<close> and \<open>y\<close> stay variables.
\<close>

record PositionedNode = FigureNode +
  pos_x :: real
  pos_y :: real

text \<open>
  The fields \<^verbatim>\<open>nodes\<close> and \<^verbatim>\<open>edges\<close> of a \<^verbatim>\<open>LayoutResult\<close> are
  \<open>nodes_out\<close> and \<open>edges_out\<close>: the plain names are the fields of the plan.
\<close>

record LayoutResult =
  width :: real
  height :: real
  nodes_out :: "PositionedNode list"
  edges_out :: "FigureEdge list"

datatype py_error = IndexError | KeyError string

subsection \<open>Dictionaries\<close>

type_synonym ('k, 'v) dict = "('k \<times> 'v) list"

text \<open>\<^verbatim>\<open>d[k] = v\<close>: an existing key keeps its place, a new key goes to the end.\<close>

primrec dict_set :: "'k \<Rightarrow> 'v \<Rightarrow> ('k, 'v) dict \<Rightarrow> ('k, 'v) dict" where
  "dict_set k v [] = [(k, v)]"
| "dict_set k v (p # ps) = (if fst p = k then (k, v) # ps else p # dict_set k v ps)"

text \<open>\<^verbatim>\<open>d[k].append(v)\<close> on a \<^verbatim>\<open>defaultdict(list)\<close>.\<close>

primrec dict_append :: "'k \<Rightarrow> 'v \<Rightarrow> ('k, 'v list) dict \<Rightarrow> ('k, 'v list) dict" where
  "dict_append k v [] = [(k, [v])]"
| "dict_append k v (p # ps) =
     (if fst p = k then (k, snd p @ [v]) # ps else p # dict_append k v ps)"

text \<open>\<^verbatim>\<open>d.get(k, [])\<close>, and \<^verbatim>\<open>d[k]\<close> on a \<^verbatim>\<open>defaultdict(list)\<close>.\<close>

definition dict_get_list :: "('k, 'v list) dict \<Rightarrow> 'k \<Rightarrow> 'v list" where
  "dict_get_list d k = (case map_of d k of None \<Rightarrow> [] | Some vs \<Rightarrow> vs)"

text \<open>\<^verbatim>\<open>d.setdefault(k, v)\<close>.\<close>

definition dict_setdefault :: "'k \<Rightarrow> 'v \<Rightarrow> ('k, 'v) dict \<Rightarrow> ('k, 'v) dict" where
  "dict_setdefault k v d = (case map_of d k of None \<Rightarrow> d @ [(k, v)] | Some _ \<Rightarrow> d)"

subsection \<open>layout_figure.py: constants\<close>

definition DEFAULT_CANVAS_SIZE :: "real \<times> real" where
  "DEFAULT_CANVAS_SIZE = (800, 600)"

definition NODE_SPACING :: "real \<times> real" where
  "NODE_SPACING = (200, 140)"

definition MARGIN :: real where
  "MARGIN = 60"

subsection \<open>layout_figure.py: \<^verbatim>\<open>_assign_layers\<close>\<close>

text \<open>The first loop: \<^verbatim>\<open>incoming[edge.target].append(edge.source)\<close> and its mirror.\<close>

definition build_incoming :: "FigureEdge list \<Rightarrow> (string, string list) dict" where
  "build_incoming es = foldl (\<lambda>d e. dict_append (target e) (source e) d) [] es"

definition build_outgoing :: "FigureEdge list \<Rightarrow> (string, string list) dict" where
  "build_outgoing es = foldl (\<lambda>d e. dict_append (source e) (target e) d) [] es"

text \<open>
  The second loop: every node that is not a key of \<^verbatim>\<open>incoming\<close> gets level 0 and
  is queued. The state is the pair of \<^verbatim>\<open>levels\<close> and \<^verbatim>\<open>queue\<close>.
\<close>

type_synonym layer_state = "(string, int) dict \<times> string list"

fun seed_sources :: "(string, string list) dict \<Rightarrow> FigureNode list \<Rightarrow> layer_state \<Rightarrow> layer_state" where
  "seed_sources incoming [] st = st"
| "seed_sources incoming (node # rest) (levels, queue) =
     (if map_of incoming (identifier node) = None
      then seed_sources incoming rest
             (dict_set (identifier node) 0 levels, queue @ [identifier node])
      else seed_sources incoming rest (levels, queue))"

text \<open>
  \<^verbatim>\<open>if not queue:\<close> the first node of the plan is the start;
  \<^verbatim>\<open>plan.nodes[0]\<close> raises \<^verbatim>\<open>IndexError\<close> on a plan without nodes.
\<close>

definition fallback_start :: "FigureNode list \<Rightarrow> layer_state \<Rightarrow> py_error + layer_state" where
  "fallback_start ns st =
     (case st of (levels, queue) \<Rightarrow>
        if queue = [] then
          (case ns of
             [] \<Rightarrow> Inl IndexError
           | node # _ \<Rightarrow> Inr (dict_set (identifier node) 0 levels, queue @ [identifier node]))
        else Inr (levels, queue))"

text \<open>
  The \<^verbatim>\<open>for neighbor in outgoing.get(current, [])\<close> loop; \<open>current_level\<close> was read
  before the loop and is not read again.
\<close>

fun relax :: "int \<Rightarrow> string list \<Rightarrow> layer_state \<Rightarrow> layer_state" where
  "relax current_level [] st = st"
| "relax current_level (neighbor # rest) (levels, queue) =
     (let proposed = current_level + 1 in
      if (case map_of levels neighbor of None \<Rightarrow> True | Some l \<Rightarrow> proposed > l)
      then relax current_level rest (dict_set neighbor proposed levels, queue @ [neighbor])
      else relax current_level rest (levels, queue))"

text \<open>
  The \<^verbatim>\<open>while queue:\<close> loop. \<^verbatim>\<open>levels[current]\<close> raises \<^verbatim>\<open>KeyError\<close> on a
  missing key.
\<close>

partial_function (option) relax_loop ::
  "(string, string list) dict \<Rightarrow> (string, int) dict \<Rightarrow> string list \<Rightarrow>
   (py_error + (string, int) dict) option" where
  "relax_loop outgoing levels queue =
     (case queue of
        [] \<Rightarrow> Some (Inr levels)
      | current # rest \<Rightarrow>
          (case map_of levels current of
             None \<Rightarrow> Some (Inl (KeyError current))
           | Some current_level \<Rightarrow>
               (case relax current_level (dict_get_list outgoing current) (levels, rest) of
                  (levels', queue') \<Rightarrow> relax_loop outgoing levels' queue')))"

declare relax_loop.simps [code]

text \<open>The last loop: \<^verbatim>\<open>levels.setdefault(node.identifier, 0)\<close>.\<close>

definition default_levels :: "FigureNode list \<Rightarrow> (string, int) dict \<Rightarrow> (string, int) dict" where
  "default_levels ns levels = foldl (\<lambda>d node. dict_setdefault (identifier node) 0 d) levels ns"

definition assign_layers :: "FigurePlan \<Rightarrow> (py_error + (string, int) dict) option" where
  "assign_layers plan =
     (let incoming = build_incoming (edges plan);
          outgoing = build_outgoing (edges plan)
      in case fallback_start (nodes plan) (seed_sources incoming (nodes plan) ([], [])) of
           Inl e \<Rightarrow> Some (Inl e)
         | Inr (levels, queue) \<Rightarrow>
             (case relax_loop outgoing levels queue of
                None \<Rightarrow> None
              | Some (Inl e) \<Rightarrow> Some (Inl e)
              | Some (Inr levels') \<Rightarrow> Some (Inr (default_levels (nodes plan) levels'))))"

subsection \<open>layout_figure.py: \<^verbatim>\<open>compute_layout\<close>\<close>

text \<open>\<^verbatim>\<open>plan.node_map()\<close>: a later node with the same identifier replaces the earlier.\<close>

definition node_map :: "FigurePlan \<Rightarrow> (string, FigureNode) dict" where
  "node_map plan = foldl (\<lambda>d node. dict_set (identifier node) node d) [] (nodes plan)"

text \<open>\<^verbatim>\<open>for node_id, level in levels.items(): columns[level].append(node_id)\<close>.\<close>

definition build_columns :: "(string, int) dict \<Rightarrow> (int, string list) dict" where
  "build_columns levels = foldl (\<lambda>d (node_id, level). dict_append level node_id d) [] levels"

text \<open>
  The inner loop \<^verbatim>\<open>for row_index, node_id in enumerate(column)\<close>;
  \<^verbatim>\<open>node_lookup[node_id]\<close> raises \<^verbatim>\<open>KeyError\<close> on a missing key.
\<close>

fun place_column ::
  "(string, FigureNode) dict \<Rightarrow> real \<Rightarrow> real \<Rightarrow> nat \<Rightarrow> string list \<Rightarrow>
   PositionedNode list \<Rightarrow> py_error + PositionedNode list" where
  "place_column node_lookup x y_offset row_index [] acc = Inr acc"
| "place_column node_lookup x y_offset row_index (node_id # rest) acc =
     (let y = y_offset + real row_index * snd NODE_SPACING in
      case map_of node_lookup node_id of
        None \<Rightarrow> Inl (KeyError node_id)
      | Some node \<Rightarrow>
          place_column node_lookup x y_offset (Suc row_index) rest
            (acc @ [\<lparr>identifier = identifier node, label = label node,
                     node_type = node_type node, metadata = metadata node,
                     pos_x = x, pos_y = y\<rparr>]))"

text \<open>The outer loop \<^verbatim>\<open>for level_index, level in enumerate(sorted_levels)\<close>.\<close>

fun place_levels ::
  "(string, FigureNode) dict \<Rightarrow> (int, string list) dict \<Rightarrow> real \<Rightarrow> nat \<Rightarrow> int list \<Rightarrow>
   PositionedNode list \<Rightarrow> py_error + PositionedNode list" where
  "place_levels node_lookup columns h level_index [] acc = Inr acc"
| "place_levels node_lookup columns h level_index (level # rest) acc =
     (let column = sort (dict_get_list columns level);
          x = MARGIN + real level_index * fst NODE_SPACING;
          col_height = snd NODE_SPACING * real_of_int (max 1 (int (length column) - 1));
          y_offset = max MARGIN ((h - col_height) / 2)
      in case place_column node_lookup x y_offset 0 column acc of
           Inl e \<Rightarrow> Inl e
         | Inr acc' \<Rightarrow> place_levels node_lookup columns h (Suc level_index) rest acc')"

definition compute_layout ::
  "FigurePlan \<Rightarrow> (real \<times> real) option \<Rightarrow> (py_error + LayoutResult) option" where
  "compute_layout plan canvas_size =
     (case (case canvas_size of None \<Rightarrow> DEFAULT_CANVAS_SIZE | Some c \<Rightarrow> c) of
        (w, h) \<Rightarrow>
          (case assign_layers plan of
             None \<Rightarrow> None
           | Some (Inl e) \<Rightarrow> Some (Inl e)
           | Some (Inr levels) \<Rightarrow>
               (let columns = build_columns levels;
                    sorted_levels = sort (map fst columns);
                    node_lookup = node_map plan
                in case place_levels node_lookup columns h 0 sorted_levels [] of
                     Inl e \<Rightarrow> Some (Inl e)
                   | Inr ns \<Rightarrow>
                       Some (Inr \<lparr>width = w, height = h, nodes_out = ns,
                                  edges_out = edges plan\<rparr>))))"

subsection \<open>layout_figure.py: \<^verbatim>\<open>compute_layout\<close> in double arithmetic\<close>

text \<open>
  A Python \<^verbatim>\<open>float\<close> is an IEEE 754 binary64 number: a sign, a significand of 53
  bits and an exponent. The numbers of magnitude from \<open>2 ^ e\<close> up to \<open>2 ^ (e + 1)\<close>
  are the multiples of \<open>2 ^ (e - 52)\<close>, for \<open>e\<close> from -1022 on; the smaller ones are
  the multiples of \<open>2 ^ (-1074)\<close>. Every float operation returns the exact result
  rounded to the nearest such number, a tie going to the even significand.

  \<open>round_half_even\<close> is the nearest integer, a tie going to the even one; \<open>binade x\<close>
  is the exponent \<open>e\<close> with \<open>2 ^ e \<le> \<bar>x\<bar> < 2 ^ (e + 1)\<close>; \<open>round_double\<close> is the
  rounding of a real to binary64. Results of magnitude \<open>2 ^ 1024\<close> and more
  (infinities in Python) are outside the model.
\<close>

definition round_half_even :: "real \<Rightarrow> int" where
  "round_half_even x =
     (let n = \<lfloor>x\<rfloor>; r = x - of_int n in
      if r < 1 / 2 then n else if 1 / 2 < r then n + 1 else if even n then n else n + 1)"

definition binade :: "real \<Rightarrow> int" where
  "binade x = (if x = 0 then 0 else \<lfloor>log 2 \<bar>x\<bar>\<rfloor>)"

definition round_double :: "real \<Rightarrow> real" where
  "round_double x =
     (if x = 0 then 0
      else let e = max (binade x) (- 1022); u = 2 powi (e - 52)
           in u * of_int (round_half_even (x / u)))"

text \<open>
  The float operations of the code, over a rounding function \<open>rnd\<close>: the conversion of
  an \<^verbatim>\<open>int\<close> operand, \<^verbatim>\<open>+\<close>, \<^verbatim>\<open>-\<close>, \<^verbatim>\<open>*\<close> and \<^verbatim>\<open>/\<close>. With
  \<open>rnd = round_double\<close> they are the operations of Python; with the identity they are
  exact.
\<close>

definition fl_of_int :: "(real \<Rightarrow> real) \<Rightarrow> int \<Rightarrow> real" where
  "fl_of_int rnd n = rnd (real_of_int n)"

definition fl_add :: "(real \<Rightarrow> real) \<Rightarrow> real \<Rightarrow> real \<Rightarrow> real" where
  "fl_add rnd a b = rnd (a + b)"

definition fl_sub :: "(real \<Rightarrow> real) \<Rightarrow> real \<Rightarrow> real \<Rightarrow> real" where
  "fl_sub rnd a b = rnd (a - b)"

definition fl_mul :: "(real \<Rightarrow> real) \<Rightarrow> real \<Rightarrow> real \<Rightarrow> real" where
  "fl_mul rnd a b = rnd (a * b)"

definition fl_div :: "(real \<Rightarrow> real) \<Rightarrow> real \<Rightarrow> real \<Rightarrow> real" where
  "fl_div rnd a b = rnd (a / b)"

text \<open>
  The inner loop, \<^verbatim>\<open>y = y_offset + row_index * NODE_SPACING[1]\<close>: the \<^verbatim>\<open>int\<close>
  \<^verbatim>\<open>row_index\<close> is converted, the product is rounded, the sum is rounded.
\<close>

fun place_column_fl ::
  "(real \<Rightarrow> real) \<Rightarrow> (string, FigureNode) dict \<Rightarrow> real \<Rightarrow> real \<Rightarrow> nat \<Rightarrow> string list \<Rightarrow>
   PositionedNode list \<Rightarrow> py_error + PositionedNode list" where
  "place_column_fl rnd node_lookup x y_offset row_index [] acc = Inr acc"
| "place_column_fl rnd node_lookup x y_offset row_index (node_id # rest) acc =
     (let y = fl_add rnd y_offset
                (fl_mul rnd (fl_of_int rnd (int row_index)) (snd NODE_SPACING)) in
      case map_of node_lookup node_id of
        None \<Rightarrow> Inl (KeyError node_id)
      | Some node \<Rightarrow>
          place_column_fl rnd node_lookup x y_offset (Suc row_index) rest
            (acc @ [\<lparr>identifier = identifier node, label = label node,
                     node_type = node_type node, metadata = metadata node,
                     pos_x = x, pos_y = y\<rparr>]))"

text \<open>
  The outer loop: \<^verbatim>\<open>x = MARGIN + level_index * NODE_SPACING[0]\<close>,
  \<^verbatim>\<open>col_height = NODE_SPACING[1] * max(1, len(column) - 1)\<close> and
  \<^verbatim>\<open>y_offset = max(MARGIN, (height - col_height) / 2)\<close>.
\<close>

fun place_levels_fl ::
  "(real \<Rightarrow> real) \<Rightarrow> (string, FigureNode) dict \<Rightarrow> (int, string list) dict \<Rightarrow> real \<Rightarrow> nat \<Rightarrow>
   int list \<Rightarrow> PositionedNode list \<Rightarrow> py_error + PositionedNode list" where
  "place_levels_fl rnd node_lookup columns h level_index [] acc = Inr acc"
| "place_levels_fl rnd node_lookup columns h level_index (level # rest) acc =
     (let column = sort (dict_get_list columns level);
          x = fl_add rnd MARGIN
                (fl_mul rnd (fl_of_int rnd (int level_index)) (fst NODE_SPACING));
          col_height = fl_mul rnd (snd NODE_SPACING)
                         (fl_of_int rnd (max 1 (int (length column) - 1)));
          y_offset = max MARGIN (fl_div rnd (fl_sub rnd h col_height) (fl_of_int rnd 2))
      in case place_column_fl rnd node_lookup x y_offset 0 column acc of
           Inl e \<Rightarrow> Inl e
         | Inr acc' \<Rightarrow> place_levels_fl rnd node_lookup columns h (Suc level_index) rest acc')"

definition compute_layout_fl ::
  "(real \<Rightarrow> real) \<Rightarrow> FigurePlan \<Rightarrow> (real \<times> real) option \<Rightarrow>
   (py_error + LayoutResult) option" where
  "compute_layout_fl rnd plan canvas_size =
     (case (case canvas_size of None \<Rightarrow> DEFAULT_CANVAS_SIZE | Some c \<Rightarrow> c) of
        (w, h) \<Rightarrow>
          (case assign_layers plan of
             None \<Rightarrow> None
           | Some (Inl e) \<Rightarrow> Some (Inl e)
           | Some (Inr levels) \<Rightarrow>
               (let columns = build_columns levels;
                    sorted_levels = sort (map fst columns);
                    node_lookup = node_map plan
                in case place_levels_fl rnd node_lookup columns h 0 sorted_levels [] of
                     Inl e \<Rightarrow> Some (Inl e)
                   | Inr ns \<Rightarrow>
                       Some (Inr \<lparr>width = w, height = h, nodes_out = ns,
                                  edges_out = edges plan\<rparr>))))"

subsection \<open>Vocabulary of the properties\<close>

text \<open>The edges of a plan as a relation on identifiers.\<close>

definition edge_rel :: "FigureEdge list \<Rightarrow> (string \<times> string) set" where
  "edge_rel es = (\<lambda>e. (source e, target e)) ` set es"

subsection \<open>Invariants of the loop\<close>

text \<open>
  \<open>layering_inv es D levels queue\<close> holds of every state of the \<^verbatim>\<open>while\<close> loop
  that starts with the keys \<open>D\<close> in \<^verbatim>\<open>levels\<close>: the keys are distinct, they are the
  keys \<open>D\<close> and targets of edges, the queue holds keys only, no level is negative, and
  every edge whose source has a level and does not wait in the queue has a target at
  least one level higher.
\<close>

definition layering_inv ::
  "FigureEdge list \<Rightarrow> string set \<Rightarrow> (string, int) dict \<Rightarrow> string list \<Rightarrow> bool" where
  "layering_inv es D lv q \<longleftrightarrow>
     distinct (map fst lv) \<and> set q \<subseteq> fst ` set lv \<and> D \<subseteq> fst ` set lv \<and>
     fst ` set lv \<subseteq> D \<union> target ` set es \<and>
     (\<forall>v l. map_of lv v = Some l \<longrightarrow> 0 \<le> l) \<and>
     (\<forall>e\<in>set es. \<forall>ls. map_of lv (source e) = Some ls \<and> source e \<notin> set q \<longrightarrow>
        (\<exists>lt. map_of lv (target e) = Some lt \<and> ls + 1 \<le> lt))"

text \<open>
  The measure of the loop on an acyclic plan: a rank \<open>f\<close> that grows along every edge
  bounds the levels, and each change of a level uses up some of the distance to the
  bound \<open>K\<close> of the ranks.
\<close>

definition ranked :: "(string \<Rightarrow> nat) \<Rightarrow> (string, int) dict \<Rightarrow> bool" where
  "ranked f lv \<longleftrightarrow> (\<forall>v l. map_of lv v = Some l \<longrightarrow> 0 \<le> l \<and> nat l \<le> f v)"

definition potential :: "nat \<Rightarrow> int option \<Rightarrow> nat" where
  "potential K x = (case x of None \<Rightarrow> K + 1 | Some l \<Rightarrow> K - nat l)"

definition total_potential :: "FigureEdge list \<Rightarrow> nat \<Rightarrow> (string, int) dict \<Rightarrow> nat" where
  "total_potential es K lv = (\<Sum>v\<in>target ` set es. potential K (map_of lv v))"

subsection \<open>Vocabulary of the placement\<close>

definition node_ids :: "FigurePlan \<Rightarrow> string set" where
  "node_ids plan = identifier ` set (nodes plan)"

definition endpoints_present :: "FigurePlan \<Rightarrow> bool" where
  "endpoints_present plan \<longleftrightarrow>
     (\<forall>e\<in>set (edges plan). source e \<in> node_ids plan \<and> target e \<in> node_ids plan)"

text \<open>The distinct layer values of a layer assignment, sorted ascending.\<close>

definition occupied_layers :: "(string, int) dict \<Rightarrow> int list" where
  "occupied_layers levels = sort (remdups (map snd levels))"

text \<open>The identifiers of one layer, sorted ascending.\<close>

definition layer_column :: "(string, int) dict \<Rightarrow> int \<Rightarrow> string list" where
  "layer_column levels l = sort (map fst (filter (\<lambda>(v, l'). l' = l) levels))"

text \<open>The column index of an identifier: the position of its layer among the occupied layers.\<close>

primrec index_of :: "'a \<Rightarrow> 'a list \<Rightarrow> nat" where
  "index_of a [] = 0"
| "index_of a (b # bs) = (if a = b then 0 else Suc (index_of a bs))"

definition column_index :: "(string, int) dict \<Rightarrow> string \<Rightarrow> nat option" where
  "column_index levels v =
     map_option (\<lambda>l. index_of l (occupied_layers levels)) (map_of levels v)"

text \<open>The positioned node of an identifier in a result.\<close>

definition positioned :: "LayoutResult \<Rightarrow> string \<Rightarrow> PositionedNode option" where
  "positioned res v = find (\<lambda>n. identifier n = v) (nodes_out res)"

text \<open>The node that the placement emits, and the vertical start of a column of \<open>k\<close> nodes.\<close>

definition place :: "FigureNode \<Rightarrow> real \<Rightarrow> real \<Rightarrow> PositionedNode" where
  "place node x y =
     \<lparr>identifier = identifier node, label = label node, node_type = node_type node,
      metadata = metadata node, pos_x = x, pos_y = y\<rparr>"

definition y_start :: "real \<Rightarrow> nat \<Rightarrow> real" where
  "y_start h k = max MARGIN ((h - snd NODE_SPACING * real_of_int (max 1 (int k - 1))) / 2)"

fun column_nodes ::
  "(string, FigureNode) dict \<Rightarrow> real \<Rightarrow> real \<Rightarrow> nat \<Rightarrow> string list \<Rightarrow> PositionedNode list" where
  "column_nodes node_lookup x y0 i [] = []"
| "column_nodes node_lookup x y0 i (v # vs) =
     place (the (map_of node_lookup v)) x (y0 + real i * snd NODE_SPACING) #
     column_nodes node_lookup x y0 (Suc i) vs"

fun layout_nodes ::
  "(string, FigureNode) dict \<Rightarrow> (string, int) dict \<Rightarrow> real \<Rightarrow> nat \<Rightarrow> int list \<Rightarrow>
   PositionedNode list" where
  "layout_nodes node_lookup levels h c [] = []"
| "layout_nodes node_lookup levels h c (l # ls) =
     column_nodes node_lookup (MARGIN + real c * fst NODE_SPACING)
       (y_start h (length (layer_column levels l))) 0 (layer_column levels l) @
     layout_nodes node_lookup levels h (Suc c) ls"

text \<open>\<^verbatim>\<open>canvas_size or DEFAULT_CANVAS_SIZE\<close>.\<close>

definition canvas :: "(real \<times> real) option \<Rightarrow> real \<times> real" where
  "canvas canvas_size = (case canvas_size of None \<Rightarrow> DEFAULT_CANVAS_SIZE | Some c \<Rightarrow> c)"






text \<open>
  The order of the emitted nodes: by column index, and by identifier within a column.
\<close>

definition placed_before :: "(string, int) dict \<Rightarrow> PositionedNode \<Rightarrow> PositionedNode \<Rightarrow> bool" where
  "placed_before levels a b =
     (case (column_index levels (identifier a), column_index levels (identifier b)) of
        (Some ca, Some cb) \<Rightarrow> ca < cb \<or> (ca = cb \<and> identifier a < identifier b)
      | _ \<Rightarrow> False)"

subsection \<open>Example plans\<close>

definition plain_node :: "string \<Rightarrow> FigureNode" where
  "plain_node i = \<lparr>identifier = i, label = i, node_type = ''process'', metadata = []\<rparr>"

definition plain_edge :: "string \<Rightarrow> string \<Rightarrow> FigureEdge" where
  "plain_edge s t = \<lparr>source = s, target = t, edge_label = None\<rparr>"

definition plain_plan :: "string list \<Rightarrow> (string \<times> string) list \<Rightarrow> FigurePlan" where
  "plain_plan ids es =
     \<lparr>nodes = map plain_node ids, edges = map (\<lambda>(s, t). plain_edge s t) es,
      title = None, description = None\<rparr>"

text \<open>Scenario D of the specification: the nodes \<open>a\<close> and \<open>b\<close> on a 2-cycle.\<close>

definition two_cycle_plan :: FigurePlan where
  "two_cycle_plan = plain_plan [''a'', ''b''] [(''a'', ''b''), (''b'', ''a'')]"

text \<open>Scenario B of the specification: the fan-out \<open>a \<rightarrow> b\<close>, \<open>a \<rightarrow> c\<close>.\<close>

definition fan_out_plan :: FigurePlan where
  "fan_out_plan = plain_plan [''a'', ''b'', ''c''] [(''a'', ''b''), (''a'', ''c'')]"

definition fan_out_result :: LayoutResult where
  "fan_out_result =
     \<lparr>width = 800, height = 600,
      nodes_out = [place (plain_node ''a'') 60 230, place (plain_node ''b'') 260 230,
                   place (plain_node ''c'') 260 370],
      edges_out = [plain_edge ''a'' ''b'', plain_edge ''a'' ''c'']\<rparr>"


text \<open>One node with an edge to itself.\<close>

definition self_loop_plan :: FigurePlan where
  "self_loop_plan = plain_plan [''a''] [(''a'', ''a'')]"


text \<open>Scenario E of the specification, twice: an edge from, and an edge to, an identifier
  that is no node of the plan.\<close>

definition dangling_source_plan :: FigurePlan where
  "dangling_source_plan = plain_plan [''a''] [(''x'', ''a'')]"

definition dangling_target_plan :: FigurePlan where
  "dangling_target_plan = plain_plan [''a''] [(''a'', ''x'')]"

text \<open>Scenario A of the specification: the chain \<open>a \<rightarrow> b\<close>, \<open>b \<rightarrow> c\<close>.\<close>

definition chain_plan :: FigurePlan where
  "chain_plan = plain_plan [''a'', ''b'', ''c''] [(''a'', ''b''), (''b'', ''c'')]"

definition chain_result :: LayoutResult where
  "chain_result =
     \<lparr>width = 800, height = 600,
      nodes_out = [place (plain_node ''a'') 60 230, place (plain_node ''b'') 260 230,
                   place (plain_node ''c'') 460 230],
      edges_out = [plain_edge ''a'' ''b'', plain_edge ''b'' ''c'']\<rparr>"

section \<open>Lemmas\<close>

subsection \<open>Dictionaries\<close>

lemma map_of_dict_set: "map_of (dict_set k v d) = (map_of d)(k \<mapsto> v)"
  by (induction d) (auto simp: fun_eq_iff)

lemma keys_dict_set:
  "map fst (dict_set k v d) = (if k \<in> fst ` set d then map fst d else map fst d @ [k])"
  by (induction d) (auto simp: image_iff)

lemma distinct_dict_set: "distinct (map fst d) \<Longrightarrow> distinct (map fst (dict_set k v d))"
  by (simp add: keys_dict_set)

lemma map_of_dict_setdefault:
  "map_of (dict_setdefault k v d) = (if map_of d k = None then (map_of d)(k \<mapsto> v) else map_of d)"
  by (auto simp: dict_setdefault_def fun_eq_iff map_add_def split: option.splits)

lemma distinct_dict_setdefault:
  "distinct (map fst d) \<Longrightarrow> distinct (map fst (dict_setdefault k v d))"
  by (auto simp: dict_setdefault_def map_of_eq_None_iff split: option.splits)

lemma dict_get_list_dict_append:
  "dict_get_list (dict_append k v d) k' =
     (if k' = k then dict_get_list d k @ [v] else dict_get_list d k')"
  by (induction d) (auto simp: dict_get_list_def)

lemma keys_dict_append:
  "map fst (dict_append k v d) = (if k \<in> fst ` set d then map fst d else map fst d @ [k])"
  by (induction d) (auto simp: image_iff)

lemma outgoing_fold:
  "dict_get_list (foldl (\<lambda>d e. dict_append (source e) (target e) d) d es) s =
     dict_get_list d s @ map target (filter (\<lambda>e. source e = s) es)"
  by (induction es arbitrary: d) (auto simp: dict_get_list_dict_append)

lemma dict_get_list_build_outgoing:
  "dict_get_list (build_outgoing es) s = map target (filter (\<lambda>e. source e = s) es)"
  unfolding build_outgoing_def outgoing_fold by (simp add: dict_get_list_def)

lemma incoming_fold:
  "fst ` set (foldl (\<lambda>d e. dict_append (target e) (source e) d) d es) =
     fst ` set d \<union> target ` set es"
proof (induction es arbitrary: d)
  case Nil
  then show ?case by simp
next
  case (Cons e es)
  have "fst ` set (dict_append (target e) (source e) d) = insert (target e) (fst ` set d)"
    using keys_dict_append [of "target e" "source e" d]
    by (metis (no_types, lifting) insert_absorb list.set_map set_append list.simps(15) Un_insert_right sup_bot.right_neutral empty_set)
  with Cons show ?case by auto
qed

lemma incoming_key_iff:
  "map_of (build_incoming es) v = None \<longleftrightarrow> v \<notin> target ` set es"
  by (simp add: build_incoming_def map_of_eq_None_iff incoming_fold)

subsection \<open>The loop and its invariant\<close>

lemma relax_loop_invariant:
  assumes run: "relax_loop og lv q = Some r"
    and init: "I lv q"
    and step: "\<And>lv c rest L lv' q'. I lv (c # rest) \<Longrightarrow> map_of lv c = Some L \<Longrightarrow>
                 relax L (dict_get_list og c) (lv, rest) = (lv', q') \<Longrightarrow> I lv' q'"
    and key: "\<And>lv c rest. I lv (c # rest) \<Longrightarrow> map_of lv c \<noteq> None"
  shows "\<exists>lvF. r = Inr lvF \<and> I lvF []"
proof -
  have "og' = og \<longrightarrow> I lv q \<longrightarrow> (\<exists>lvF. r = Inr lvF \<and> I lvF [])"
    if "relax_loop og' lv q = Some r" for og'
  proof (rule relax_loop.raw_induct
      [where P = "\<lambda>og' lv q r. og' = og \<longrightarrow> I lv q \<longrightarrow> (\<exists>lvF. r = Inr lvF \<and> I lvF [])", OF _ that])
    fix f og' lv q r
    assume IH: "\<And>og' lv q r. f og' lv q = Some r \<Longrightarrow>
                  og' = og \<longrightarrow> I lv q \<longrightarrow> (\<exists>lvF. r = Inr lvF \<and> I lvF [])"
      and body: "(case q of
          [] \<Rightarrow> Some (Inr lv)
        | current # rest \<Rightarrow>
            (case map_of lv current of
               None \<Rightarrow> Some (Inl (KeyError current))
             | Some current_level \<Rightarrow>
                 (case relax current_level (dict_get_list og' current) (lv, rest) of
                    (levels', queue') \<Rightarrow> f og' levels' queue'))) = Some r"
    show "og' = og \<longrightarrow> I lv q \<longrightarrow> (\<exists>lvF. r = Inr lvF \<and> I lvF [])"
    proof (intro impI)
      assume og: "og' = og" and inv: "I lv q"
      show "\<exists>lvF. r = Inr lvF \<and> I lvF []"
      proof (cases q)
        case Nil
        with body inv show ?thesis by auto
      next
        case (Cons c rest)
        with key inv obtain L where L: "map_of lv c = Some L" by blast
        obtain lv' q' where rl: "relax L (dict_get_list og c) (lv, rest) = (lv', q')"
          by (cases "relax L (dict_get_list og c) (lv, rest)")
        from body Cons L rl og have "f og lv' q' = Some r" by simp
        moreover from step inv Cons L rl have "I lv' q'" by blast
        ultimately show ?thesis using IH by blast
      qed
    qed
  qed
  with run init show ?thesis by blast
qed

lemma relax_map_of:
  "relax L ns (lv, q) = (lv', q') \<Longrightarrow>
     map_of lv' v =
       (if v \<in> set ns \<and> (case map_of lv v of None \<Rightarrow> True | Some l \<Rightarrow> l < L + 1)
        then Some (L + 1) else map_of lv v)"
  by (induction ns arbitrary: lv q)
     (auto simp: map_of_dict_set Let_def split: if_splits option.splits)

lemma relax_queue:
  "relax L ns (lv, q) = (lv', q') \<Longrightarrow>
     \<exists>us. q' = q @ us \<and>
       set us = {v \<in> set ns. (case map_of lv v of None \<Rightarrow> True | Some l \<Rightarrow> l < L + 1)}"
proof (induction ns arbitrary: lv q)
  case Nil
  then show ?case by simp
next
  case (Cons n ns)
  show ?case
  proof (cases "case map_of lv n of None \<Rightarrow> True | Some l \<Rightarrow> l < L + 1")
    case True
    with Cons.prems have "relax L ns (dict_set n (L + 1) lv, q @ [n]) = (lv', q')"
      by (simp add: Let_def)
    from Cons.IH [OF this] obtain us where us: "q' = (q @ [n]) @ us"
      "set us = {v \<in> set ns. (case map_of (dict_set n (L + 1) lv) v of None \<Rightarrow> True | Some l \<Rightarrow> l < L + 1)}"
      by blast
    have "set (n # us) = {v \<in> set (n # ns). (case map_of lv v of None \<Rightarrow> True | Some l \<Rightarrow> l < L + 1)}"
      using True us(2) by (auto simp: map_of_dict_set split: option.splits if_splits)
    with us(1) show ?thesis by (intro exI [of _ "n # us"]) simp
  next
    case False
    with Cons.prems have "relax L ns (lv, q) = (lv', q')"
      by (simp add: Let_def)
    from Cons.IH [OF this] obtain us where us: "q' = q @ us"
      "set us = {v \<in> set ns. (case map_of lv v of None \<Rightarrow> True | Some l \<Rightarrow> l < L + 1)}"
      by blast
    with False show ?thesis by (intro exI [of _ us]) auto
  qed
qed

lemma relax_distinct:
  "relax L ns (lv, q) = (lv', q') \<Longrightarrow> distinct (map fst lv) \<Longrightarrow> distinct (map fst lv')"
  by (induction ns arbitrary: lv q)
     (auto simp: distinct_dict_set Let_def split: if_splits)

lemma keys_conv_dom: "fst ` set lv = dom (map_of lv)"
  by (simp add: dom_map_of_conv_image_fst)

lemma relax_keys:
  assumes "relax L ns (lv, q) = (lv', q')"
  shows "fst ` set lv \<subseteq> fst ` set lv'" and "fst ` set lv' \<subseteq> fst ` set lv \<union> set ns"
  using relax_map_of [OF assms] unfolding keys_conv_dom
  by (auto simp: dom_def split: if_splits)

lemma layering_inv_step:
  assumes inv: "layering_inv es D lv (c # rest)"
    and L: "map_of lv c = Some L"
    and rl: "relax L (dict_get_list (build_outgoing es) c) (lv, rest) = (lv', q')"
  shows "layering_inv es D lv' q'"
proof -
  let ?ns = "map target (filter (\<lambda>e. source e = c) es)"
  let ?imp = "\<lambda>v. case map_of lv v of None \<Rightarrow> True | Some l \<Rightarrow> l < L + 1"
  from rl have rl': "relax L ?ns (lv, rest) = (lv', q')"
    by (simp add: dict_get_list_build_outgoing)
  note m = relax_map_of [OF rl']
  from relax_queue [OF rl'] obtain us where us: "q' = rest @ us"
    "set us = {v \<in> set ?ns. ?imp v}" by blast
  note k = relax_keys [OF rl']
  from inv have L0: "0 \<le> L" using L by (auto simp: layering_inv_def)
  have 1: "distinct (map fst lv')"
    using relax_distinct [OF rl'] inv by (simp add: layering_inv_def)
  have 2: "set q' \<subseteq> fst ` set lv'"
  proof
    fix v assume "v \<in> set q'"
    then consider "v \<in> set rest" | "v \<in> set us" using us(1) by auto
    then show "v \<in> fst ` set lv'"
    proof cases
      case 1
      with inv k(1) show ?thesis by (auto simp: layering_inv_def)
    next
      case 2
      with us(2) have "map_of lv' v = Some (L + 1)" using m [of v] by auto
      then show ?thesis unfolding keys_conv_dom by auto
    qed
  qed
  have 3: "D \<subseteq> fst ` set lv'"
    using inv k(1) by (auto simp: layering_inv_def)
  have ns_sub: "set ?ns \<subseteq> target ` set es" by auto
  from inv have "fst ` set lv \<subseteq> D \<union> target ` set es"
    by (simp add: layering_inv_def)
  with k(2) ns_sub have 4: "fst ` set lv' \<subseteq> D \<union> target ` set es"
    by blast
  have 5: "\<forall>v l. map_of lv' v = Some l \<longrightarrow> 0 \<le> l"
    using inv L0 m by (auto simp: layering_inv_def split: if_splits)
  have 6: "\<exists>lt. map_of lv' (target e) = Some lt \<and> ls + 1 \<le> lt"
    if e: "e \<in> set es" and ls: "map_of lv' (source e) = Some ls" and nq: "source e \<notin> set q'" for e ls
  proof -
    from nq us have nrest: "source e \<notin> set rest" and nimp: "\<not> (source e \<in> set ?ns \<and> ?imp (source e))"
      by auto
    from nimp have "map_of lv' (source e) = map_of lv (source e)"
      by (subst m) (simp only: if_False)
    with ls have old: "map_of lv (source e) = Some ls" by simp
    show ?thesis
    proof (cases "source e = c")
      case True
      with old L have "ls = L" by simp
      moreover from True e have "target e \<in> set ?ns" by auto
      ultimately show ?thesis using m [of "target e"] by (auto split: option.splits)
    next
      case False
      with nrest have "source e \<notin> set (c # rest)" by simp
      with inv e old obtain lt where lt: "map_of lv (target e) = Some lt" "ls + 1 \<le> lt"
        unfolding layering_inv_def by blast
      then show ?thesis using m [of "target e"] by (auto split: option.splits)
    qed
  qed
  from 1 2 3 4 5 6 show ?thesis unfolding layering_inv_def by blast
qed

lemma relax_loop_layering:
  assumes run: "relax_loop (build_outgoing es) lv q = Some r"
    and init: "layering_inv es D lv q"
  shows "\<exists>lvF. r = Inr lvF \<and> layering_inv es D lvF []"
proof (rule relax_loop_invariant [OF run, where I = "layering_inv es D", OF init])
  show "layering_inv es D lv' q'"
    if "layering_inv es D lv (c # rest)" "map_of lv c = Some L"
      "relax L (dict_get_list (build_outgoing es) c) (lv, rest) = (lv', q')"
    for lv c rest L lv' q'
    using that by (rule layering_inv_step)
  show "map_of lv c \<noteq> None" if "layering_inv es D lv (c # rest)" for lv c rest
    using that unfolding layering_inv_def keys_conv_dom by auto
qed


subsection \<open>The start of the loop\<close>

lemma seed_sources_result:
  "seed_sources inc ns (lv, q) = (lv', q') \<Longrightarrow> set q = fst ` set lv \<Longrightarrow>
   distinct (map fst lv) \<Longrightarrow> (\<forall>v l. map_of lv v = Some l \<longrightarrow> l = 0) \<Longrightarrow>
     set q' = fst ` set lv' \<and> distinct (map fst lv') \<and>
     (\<forall>v l. map_of lv' v = Some l \<longrightarrow> l = 0) \<and>
     fst ` set lv' = fst ` set lv \<union> {identifier n |n. n \<in> set ns \<and> map_of inc (identifier n) = None}"
proof (induction ns arbitrary: lv q)
  case Nil
  then show ?case by simp
next
  case (Cons n ns)
  show ?case
  proof (cases "map_of inc (identifier n) = None")
    case True
    let ?lv = "dict_set (identifier n) 0 lv" and ?q = "q @ [identifier n]"
    from True Cons.prems(1) have run: "seed_sources inc ns (?lv, ?q) = (lv', q')" by simp
    have k: "fst ` set ?lv = insert (identifier n) (fst ` set lv)"
      unfolding keys_conv_dom by (simp add: map_of_dict_set)
    have "set ?q = fst ` set ?lv" using Cons.prems(2) k by simp
    moreover have "distinct (map fst ?lv)" using Cons.prems(3) by (rule distinct_dict_set)
    moreover have "\<forall>v l. map_of ?lv v = Some l \<longrightarrow> l = 0"
      using Cons.prems(4) by (simp add: map_of_dict_set)
    ultimately have "set q' = fst ` set lv' \<and> distinct (map fst lv') \<and>
      (\<forall>v l. map_of lv' v = Some l \<longrightarrow> l = 0) \<and>
      fst ` set lv' = fst ` set ?lv \<union> {identifier m |m. m \<in> set ns \<and> map_of inc (identifier m) = None}"
      by (rule Cons.IH [OF run])
    with k True show ?thesis by auto
  next
    case False
    with Cons.prems(1) have run: "seed_sources inc ns (lv, q) = (lv', q')" by simp
    from Cons.IH [OF run Cons.prems(2-4)] False show ?thesis by auto
  qed
qed

lemma start_state:
  assumes "fallback_start ns (seed_sources inc ns ([], [])) = Inr (lv, q)"
  shows "set q = fst ` set lv" and "distinct (map fst lv)"
    and "\<forall>v l. map_of lv v = Some l \<longrightarrow> l = 0"
    and "{identifier n |n. n \<in> set ns \<and> map_of inc (identifier n) = None} \<subseteq> fst ` set lv"
    and "fst ` set lv \<subseteq> identifier ` set ns"
    and "ns \<noteq> []"
proof -
  obtain lv0 q0 where s: "seed_sources inc ns ([], []) = (lv0, q0)"
    by (cases "seed_sources inc ns ([], [])")
  from seed_sources_result [OF s] have r: "set q0 = fst ` set lv0" "distinct (map fst lv0)"
    "\<forall>v l. map_of lv0 v = Some l \<longrightarrow> l = 0"
    "fst ` set lv0 = {identifier n |n. n \<in> set ns \<and> map_of inc (identifier n) = None}"
    by simp_all
  have "set q = fst ` set lv \<and> distinct (map fst lv) \<and>
    (\<forall>v l. map_of lv v = Some l \<longrightarrow> l = 0) \<and>
    {identifier n |n. n \<in> set ns \<and> map_of inc (identifier n) = None} \<subseteq> fst ` set lv \<and>
    fst ` set lv \<subseteq> identifier ` set ns \<and> ns \<noteq> []"
  proof (cases "q0 = []")
    case True
    with r(1) have lv0: "lv0 = []" by simp
    from assms True lv0 obtain n ns' where ns: "ns = n # ns'"
      and "lv = [(identifier n, 0)]" "q = [identifier n]"
      unfolding s fallback_start_def by (auto split: list.splits)
    moreover from r(4) lv0
    have e: "{identifier n |n. n \<in> set ns \<and> map_of inc (identifier n) = None} = {}" by simp
    ultimately show ?thesis unfolding e by simp
  next
    case False
    with assms have eq: "lv = lv0" "q = q0" unfolding s fallback_start_def by simp_all
    from False r(1) have "fst ` set lv0 \<noteq> {}" by auto
    with r(4) have "ns \<noteq> []" by auto
    moreover from r(4) have "fst ` set lv0 \<subseteq> identifier ` set ns" by auto
    ultimately show ?thesis using r eq by simp
  qed
  then show "set q = fst ` set lv" "distinct (map fst lv)"
    "\<forall>v l. map_of lv v = Some l \<longrightarrow> l = 0"
    "{identifier n |n. n \<in> set ns \<and> map_of inc (identifier n) = None} \<subseteq> fst ` set lv"
    "fst ` set lv \<subseteq> identifier ` set ns" "ns \<noteq> []"
    by blast+
qed

lemma start_layering_inv:
  assumes "fallback_start ns (seed_sources inc ns ([], [])) = Inr (lv, q)"
  shows "layering_inv es (fst ` set lv) lv q"
proof -
  note s = start_state(1-3) [OF assms]
  have "source e \<in> set q" if "map_of lv (source e) = Some ls" for e ls
    using that s(1) unfolding keys_conv_dom by blast
  with s show ?thesis unfolding layering_inv_def by blast
qed

subsection \<open>A cycle that is reached keeps the loop running\<close>

lemma settled_closed:
  assumes inv: "layering_inv es D lv []" and st: "(s, t) \<in> (edge_rel es)\<^sup>+"
    and ls: "map_of lv s = Some ls"
  shows "\<exists>lt. map_of lv t = Some lt \<and> ls + 1 \<le> lt"
  using st
proof (induction rule: trancl_induct)
  case (base t)
  then obtain e where "e \<in> set es" "source e = s" "target e = t"
    by (auto simp: edge_rel_def)
  with inv ls show ?case unfolding layering_inv_def by fastforce
next
  case (step t u)
  then obtain lt where lt: "map_of lv t = Some lt" "ls + 1 \<le> lt" by blast
  from step(2) obtain e where "e \<in> set es" "source e = t" "target e = u"
    by (auto simp: edge_rel_def)
  with inv lt(1) obtain lu where "map_of lv u = Some lu" "lt + 1 \<le> lu"
    unfolding layering_inv_def by fastforce
  with lt(2) show ?case by auto
qed

lemma relax_loop_cycle_diverges:
  assumes inv: "layering_inv es D lv q" and v: "v \<in> D"
    and reach: "(v, c) \<in> (edge_rel es)\<^sup>*" and cyc: "(c, c) \<in> (edge_rel es)\<^sup>+"
  shows "relax_loop (build_outgoing es) lv q = None"
proof (rule ccontr)
  assume "relax_loop (build_outgoing es) lv q \<noteq> None"
  then obtain r where "relax_loop (build_outgoing es) lv q = Some r" by blast
  from relax_loop_layering [OF this inv] obtain lvF where F: "layering_inv es D lvF []"
    by blast
  with v have "v \<in> dom (map_of lvF)" unfolding layering_inv_def keys_conv_dom by blast
  then obtain l where l: "map_of lvF v = Some l" by blast
  have "\<exists>lc. map_of lvF c = Some lc"
  proof (cases "v = c")
    case True
    with l show ?thesis by blast
  next
    case False
    with reach have "(v, c) \<in> (edge_rel es)\<^sup>+" by (simp add: rtrancl_eq_or_trancl)
    from settled_closed [OF F this l] show ?thesis by blast
  qed
  then obtain lc where lc: "map_of lvF c = Some lc" by blast
  from settled_closed [OF F cyc lc] lc show False by auto
qed

lemma assign_layers_cycle_diverges:
  assumes start: "fallback_start (nodes plan)
      (seed_sources (build_incoming (edges plan)) (nodes plan) ([], [])) = Inr (lv, q)"
    and v: "v \<in> fst ` set lv"
    and reach: "(v, c) \<in> (edge_rel (edges plan))\<^sup>*"
    and cyc: "(c, c) \<in> (edge_rel (edges plan))\<^sup>+"
  shows "assign_layers plan = None"
proof -
  have "relax_loop (build_outgoing (edges plan)) lv q = None"
    using start_layering_inv [OF start] v reach cyc by (rule relax_loop_cycle_diverges)
  with start show ?thesis by (simp add: assign_layers_def)
qed

subsection \<open>The loop ends on an acyclic plan\<close>

lemma acyclic_rank:
  assumes fin: "finite r" and ac: "acyclic r"
  shows "\<forall>(a, b)\<in>r. card {u. (u, a) \<in> r\<^sup>+} < card {u. (u, b) \<in> r\<^sup>+}"
    and "card {u. (u, v) \<in> r\<^sup>+} \<le> card r"
proof -
  have sub: "{u. (u, w) \<in> r\<^sup>+} \<subseteq> fst ` r" for w
  proof
    fix u assume "u \<in> {u. (u, w) \<in> r\<^sup>+}"
    then obtain z where "(u, z) \<in> r" by (auto dest: tranclD)
    then show "u \<in> fst ` r" by force
  qed
  have finw: "finite {u. (u, w) \<in> r\<^sup>+}" for w
    using sub fin by (meson finite_imageI finite_subset)
  show "\<forall>(a, b)\<in>r. card {u. (u, a) \<in> r\<^sup>+} < card {u. (u, b) \<in> r\<^sup>+}"
  proof (clarify)
    fix a b assume ab: "(a, b) \<in> r"
    have "{u. (u, a) \<in> r\<^sup>+} \<subseteq> {u. (u, b) \<in> r\<^sup>+}"
      using ab by (auto intro: trancl_into_trancl)
    moreover have "a \<in> {u. (u, b) \<in> r\<^sup>+}" using ab by auto
    moreover have "a \<notin> {u. (u, a) \<in> r\<^sup>+}" using ac by (auto simp: acyclic_def)
    ultimately have "{u. (u, a) \<in> r\<^sup>+} \<subset> {u. (u, b) \<in> r\<^sup>+}" by blast
    then show "card {u. (u, a) \<in> r\<^sup>+} < card {u. (u, b) \<in> r\<^sup>+}"
      using finw by (simp add: psubset_card_mono)
  qed
  have "card {u. (u, v) \<in> r\<^sup>+} \<le> card (fst ` r)"
    using sub fin by (simp add: card_mono)
  also have "\<dots> \<le> card r" using fin by (rule card_image_le)
  finally show "card {u. (u, v) \<in> r\<^sup>+} \<le> card r" .
qed

lemma potential_dict_set:
  assumes rk: "ranked f lv" and bound: "\<forall>v. f v \<le> K" and L: "0 \<le> L"
    and n: "n \<in> target ` set es" and fn: "nat (L + 1) \<le> f n"
    and imp: "case map_of lv n of None \<Rightarrow> True | Some l \<Rightarrow> l < L + 1"
  shows "ranked f (dict_set n (L + 1) lv)"
    and "total_potential es K (dict_set n (L + 1) lv) < total_potential es K lv"
proof -
  show "ranked f (dict_set n (L + 1) lv)"
    using rk L fn unfolding ranked_def by (auto simp: map_of_dict_set)
  have le: "potential K (map_of (dict_set n (L + 1) lv) v) \<le> potential K (map_of lv v)" for v
  proof (cases "v = n")
    case True
    with imp rk L show ?thesis
      by (cases "map_of lv n") (auto simp: map_of_dict_set potential_def ranked_def)
  next
    case False
    then show ?thesis by (simp add: map_of_dict_set)
  qed
  have fnK: "nat (L + 1) \<le> K" using fn bound le_trans by blast
  have lt: "potential K (map_of (dict_set n (L + 1) lv) n) < potential K (map_of lv n)"
  proof (cases "map_of lv n")
    case None
    then show ?thesis by (simp add: map_of_dict_set potential_def)
  next
    case (Some l)
    with imp have "l < L + 1" by simp
    moreover from Some rk have "0 \<le> l" by (auto simp: ranked_def)
    ultimately show ?thesis using Some fnK by (auto simp: map_of_dict_set potential_def)
  qed
  show "total_potential es K (dict_set n (L + 1) lv) < total_potential es K lv"
    unfolding total_potential_def
    by (rule sum_strict_mono_ex1) (use le lt n in auto)
qed

lemma relax_potential:
  "relax L ns (lv, q) = (lv', q') \<Longrightarrow> ranked f lv \<Longrightarrow> \<forall>v. f v \<le> K \<Longrightarrow> 0 \<le> L \<Longrightarrow>
   \<forall>n\<in>set ns. n \<in> target ` set es \<and> nat (L + 1) \<le> f n \<Longrightarrow>
     ranked f lv' \<and> total_potential es K lv' + length q' \<le> total_potential es K lv + length q"
proof (induction ns arbitrary: lv q)
  case Nil
  then show ?case by simp
next
  case (Cons n ns)
  show ?case
  proof (cases "case map_of lv n of None \<Rightarrow> True | Some l \<Rightarrow> l < L + 1")
    case True
    with Cons.prems(1) have run: "relax L ns (dict_set n (L + 1) lv, q @ [n]) = (lv', q')"
      by (simp add: Let_def)
    from Cons.prems have n: "n \<in> target ` set es" "nat (L + 1) \<le> f n" by simp_all
    note p = potential_dict_set [OF Cons.prems(2,3,4) n True]
    from Cons.IH [OF run p(1) Cons.prems(3,4)] Cons.prems(5)
    have "ranked f lv' \<and> total_potential es K lv' + length q'
            \<le> total_potential es K (dict_set n (L + 1) lv) + length (q @ [n])"
      by simp
    with p(2) show ?thesis by simp
  next
    case False
    with Cons.prems(1) have run: "relax L ns (lv, q) = (lv', q')"
      by (simp add: Let_def)
    from Cons.IH [OF run Cons.prems(2,3,4)] Cons.prems(5) show ?thesis by simp
  qed
qed

lemma relax_loop_terminates:
  assumes rank: "\<forall>e\<in>set es. f (source e) < f (target e)" and bound: "\<forall>v. f v \<le> K"
  shows "ranked f lv \<Longrightarrow> relax_loop (build_outgoing es) lv q \<noteq> None"
proof (induction "total_potential es K lv + length q" arbitrary: lv q rule: less_induct)
  case less
  show ?case
  proof (cases q)
    case Nil
    then show ?thesis by (subst relax_loop.simps) simp
  next
    case (Cons c rest)
    show ?thesis
    proof (cases "map_of lv c")
      case None
      with Cons show ?thesis by (subst relax_loop.simps) simp
    next
      case (Some L)
      let ?ns = "dict_get_list (build_outgoing es) c"
      obtain lv' q' where rl: "relax L ?ns (lv, rest) = (lv', q')"
        by (cases "relax L ?ns (lv, rest)")
      from Some less.prems have L: "0 \<le> L" "nat L \<le> f c" by (auto simp: ranked_def)
      have "\<forall>n\<in>set ?ns. n \<in> target ` set es \<and> nat (L + 1) \<le> f n"
      proof
        fix n assume "n \<in> set ?ns"
        then obtain e where e: "e \<in> set es" "source e = c" "target e = n"
          by (auto simp: dict_get_list_build_outgoing)
        with rank have "f c < f n" by blast
        with L e show "n \<in> target ` set es \<and> nat (L + 1) \<le> f n" by (auto simp: nat_add_distrib)
      qed
      from relax_potential [OF rl less.prems bound L(1) this]
      have p: "ranked f lv'"
        "total_potential es K lv' + length q' \<le> total_potential es K lv + length rest"
        by simp_all
      with Cons have "total_potential es K lv' + length q' < total_potential es K lv + length q"
        by simp
      from less.hyps [OF this p(1)] have "relax_loop (build_outgoing es) lv' q' \<noteq> None" .
      with Cons Some rl show ?thesis by (subst relax_loop.simps) simp
    qed
  qed
qed

lemma relax_loop_acyclic_terminates:
  assumes ac: "acyclic (edge_rel es)" and z: "\<forall>v l. map_of lv v = Some l \<longrightarrow> l = 0"
  shows "relax_loop (build_outgoing es) lv q \<noteq> None"
proof -
  let ?r = "edge_rel es"
  let ?f = "\<lambda>v. card {u. (u, v) \<in> ?r\<^sup>+}"
  have fin: "finite ?r" by (simp add: edge_rel_def)
  have "\<forall>e\<in>set es. ?f (source e) < ?f (target e)"
    using acyclic_rank(1) [OF fin ac] by (auto simp: edge_rel_def)
  moreover have "\<forall>v. ?f v \<le> card ?r" using acyclic_rank(2) [OF fin ac] by blast
  moreover have "ranked ?f lv"
    unfolding ranked_def
  proof (intro allI impI)
    fix v l assume "map_of lv v = Some l"
    with z have "l = 0" by blast
    then show "0 \<le> l \<and> nat l \<le> ?f v" by simp
  qed
  ultimately show ?thesis by (rule relax_loop_terminates)
qed

subsection \<open>Placement\<close>

lemma place_column_result:
  "place_column nl x y0 i col acc = Inr r \<longleftrightarrow>
     (\<forall>v\<in>set col. map_of nl v \<noteq> None) \<and> r = acc @ column_nodes nl x y0 i col"
  by (induction col arbitrary: i acc)
     (auto simp: place_def Let_def split: option.splits)

lemma place_column_error:
  "place_column nl x y0 i col acc = Inl e \<Longrightarrow>
     \<exists>v\<in>set col. map_of nl v = None \<and> e = KeyError v"
  by (induction col arbitrary: i acc) (auto simp: Let_def split: option.splits)

lemma columns_fold:
  "dict_get_list (foldl (\<lambda>d (node_id, level). dict_append level node_id d) d lv) l =
     dict_get_list d l @ map fst (filter (\<lambda>(v, l'). l' = l) lv)"
  by (induction lv arbitrary: d) (auto simp: dict_get_list_dict_append)

lemma dict_get_list_build_columns:
  "dict_get_list (build_columns lv) l = map fst (filter (\<lambda>(v, l'). l' = l) lv)"
  unfolding build_columns_def columns_fold by (simp add: dict_get_list_def)

lemma columns_keys_fold:
  "distinct (map fst d) \<Longrightarrow>
     distinct (map fst (foldl (\<lambda>d (node_id, level). dict_append level node_id d) d lv)) \<and>
     set (map fst (foldl (\<lambda>d (node_id, level). dict_append level node_id d) d lv)) =
       set (map fst d) \<union> snd ` set lv"
proof (induction lv arbitrary: d)
  case Nil
  then show ?case by simp
next
  case (Cons p lv)
  obtain v l where p: "p = (v, l)" by (cases p)
  have d: "distinct (map fst (dict_append l v d))"
    using Cons.prems by (simp add: keys_dict_append)
  have s: "set (map fst (dict_append l v d)) = insert l (set (map fst d))"
    by (auto simp: keys_dict_append)
  from Cons.IH [OF d] s p show ?case by auto
qed

lemma sorted_levels_eq:
  "sort (map fst (build_columns lv)) = occupied_layers lv"
proof -
  have "distinct (map fst (build_columns lv)) \<and>
        set (map fst (build_columns lv)) = snd ` set lv"
    using columns_keys_fold [of "[]" lv] by (simp add: build_columns_def)
  then show ?thesis
    unfolding occupied_layers_def
    by (intro sorted_distinct_set_unique) simp_all
qed

lemma place_levels_Cons:
  "place_levels nl (build_columns lv) h c (l # ls) acc =
     (case place_column nl (MARGIN + real c * fst NODE_SPACING)
             (y_start h (length (layer_column lv l))) 0 (layer_column lv l) acc of
        Inl e \<Rightarrow> Inl e
      | Inr acc' \<Rightarrow> place_levels nl (build_columns lv) h (Suc c) ls acc')"
  by (simp add: dict_get_list_build_columns layer_column_def Let_def y_start_def)

lemma place_levels_result:
  "place_levels nl (build_columns lv) h c ls acc = Inr r \<longleftrightarrow>
     (\<forall>l\<in>set ls. \<forall>v\<in>set (layer_column lv l). map_of nl v \<noteq> None) \<and>
     r = acc @ layout_nodes nl lv h c ls"
proof (induction ls arbitrary: c acc)
  case Nil
  then show ?case by auto
next
  case (Cons l ls)
  let ?pc = "place_column nl (MARGIN + real c * fst NODE_SPACING)
               (y_start h (length (layer_column lv l))) 0 (layer_column lv l) acc"
  show ?case
  proof (cases ?pc)
    case (Inl e)
    from place_column_error [OF Inl] have "\<not> (\<forall>v\<in>set (layer_column lv l). map_of nl v \<noteq> None)"
      by blast
    with Inl show ?thesis by (simp add: place_levels_Cons del: place_levels.simps)
  next
    case (Inr acc')
    then have ok: "\<forall>v\<in>set (layer_column lv l). map_of nl v \<noteq> None"
      and acc': "acc' = acc @ column_nodes nl (MARGIN + real c * fst NODE_SPACING)
               (y_start h (length (layer_column lv l))) 0 (layer_column lv l)"
      by (simp_all add: place_column_result)
    have "place_levels nl (build_columns lv) h c (l # ls) acc = Inr r \<longleftrightarrow>
          place_levels nl (build_columns lv) h (Suc c) ls acc' = Inr r"
      using Inr by (simp add: place_levels_Cons del: place_levels.simps)
    also have "\<dots> \<longleftrightarrow> (\<forall>l\<in>set ls. \<forall>v\<in>set (layer_column lv l). map_of nl v \<noteq> None) \<and>
        r = acc' @ layout_nodes nl lv h (Suc c) ls"
      by (rule Cons.IH)
    finally show ?thesis using ok acc' by auto
  qed
qed

lemma place_levels_error:
  "place_levels nl (build_columns lv) h c ls acc = Inl e \<Longrightarrow>
     \<exists>l\<in>set ls. \<exists>v\<in>set (layer_column lv l). map_of nl v = None \<and> e = KeyError v"
proof (induction ls arbitrary: c acc)
  case Nil
  then show ?case by simp
next
  case (Cons l ls)
  from Cons.prems show ?case
    unfolding place_levels_Cons
    by (auto split: sum.splits dest: place_column_error Cons.IH)
qed

subsection \<open>The node lookup\<close>

lemma find_append_first:
  "find P (xs @ ys) = (case find P xs of None \<Rightarrow> find P ys | Some x \<Rightarrow> Some x)"
  by (induction xs) auto

lemma find_Some_set: "find P xs = Some x \<Longrightarrow> x \<in> set xs \<and> P x"
  by (induction xs) (auto split: if_splits)

lemma node_map_fold:
  "map_of (foldl (\<lambda>d node. dict_set (identifier node) node d) d ns) v =
     (case find (\<lambda>n. identifier n = v) (rev ns) of None \<Rightarrow> map_of d v | Some n \<Rightarrow> Some n)"
  by (induction ns arbitrary: d)
     (auto simp: map_of_dict_set find_append_first split: option.splits)

lemma map_of_node_map:
  "map_of (node_map plan) v = find (\<lambda>n. identifier n = v) (rev (nodes plan))"
  by (simp add: node_map_def node_map_fold split: option.splits)

lemma node_map_None: "map_of (node_map plan) v = None \<longleftrightarrow> v \<notin> node_ids plan"
  by (auto simp: map_of_node_map find_None_iff node_ids_def)

lemma node_map_Some:
  "map_of (node_map plan) v = Some n \<Longrightarrow> n \<in> set (nodes plan) \<and> identifier n = v"
  using find_Some_set [of "\<lambda>n. identifier n = v" "rev (nodes plan)" n]
  by (simp add: map_of_node_map)

lemma node_map_distinct:
  assumes "distinct (map identifier (nodes plan))" and "n \<in> set (nodes plan)"
  shows "map_of (node_map plan) (identifier n) = Some n"
proof -
  from assms(2) have "map_of (node_map plan) (identifier n) \<noteq> None"
    by (auto simp: node_map_None node_ids_def)
  then obtain m where m: "map_of (node_map plan) (identifier n) = Some m" by blast
  from node_map_Some [OF m] have "m \<in> set (nodes plan)" "identifier m = identifier n" by simp_all
  with assms have "m = n" by (meson distinct_map inj_onD)
  with m show ?thesis by simp
qed

subsection \<open>The layer assignment of a run that ends\<close>

lemma default_levels_fold:
  "map_of (foldl (\<lambda>d node. dict_setdefault (identifier node) 0 d) lv ns) v =
     (case map_of lv v of
        Some l \<Rightarrow> Some l
      | None \<Rightarrow> if v \<in> identifier ` set ns then Some 0 else None)"
  by (induction ns arbitrary: lv)
     (auto simp: map_of_dict_setdefault split: option.splits if_splits)

lemma map_of_default_levels:
  "map_of (default_levels ns lv) v =
     (case map_of lv v of
        Some l \<Rightarrow> Some l
      | None \<Rightarrow> if v \<in> identifier ` set ns then Some 0 else None)"
  by (simp add: default_levels_def default_levels_fold)

lemma distinct_default_levels:
  "distinct (map fst lv) \<Longrightarrow> distinct (map fst (default_levels ns lv))"
  unfolding default_levels_def
  by (induction ns arbitrary: lv) (simp_all add: distinct_dict_setdefault)

lemma keys_default_levels:
  "fst ` set (default_levels ns lv) = fst ` set lv \<union> identifier ` set ns"
  unfolding keys_conv_dom
  by (auto simp: map_of_default_levels dom_def split: option.splits if_splits)

lemma assign_layers_result:
  assumes "assign_layers plan = Some (Inr levels)"
  obtains lv0 q0 lvF where
    "fallback_start (nodes plan)
       (seed_sources (build_incoming (edges plan)) (nodes plan) ([], [])) = Inr (lv0, q0)"
    "relax_loop (build_outgoing (edges plan)) lv0 q0 = Some (Inr lvF)"
    "layering_inv (edges plan) (fst ` set lv0) lvF []"
    "levels = default_levels (nodes plan) lvF"
proof -
  let ?start = "fallback_start (nodes plan)
       (seed_sources (build_incoming (edges plan)) (nodes plan) ([], []))"
  from assms obtain lv0 q0 where start: "?start = Inr (lv0, q0)"
    by (cases ?start) (auto simp: assign_layers_def)
  with assms obtain lvF where run: "relax_loop (build_outgoing (edges plan)) lv0 q0 = Some (Inr lvF)"
    and lev: "levels = default_levels (nodes plan) lvF"
    by (auto simp: assign_layers_def split: option.splits sum.splits)
  from relax_loop_layering [OF run start_layering_inv [OF start]]
  have "layering_inv (edges plan) (fst ` set lv0) lvF []" by simp
  then show ?thesis using that [OF start run _ lev] by blast
qed

lemma assign_layers_facts:
  assumes "assign_layers plan = Some (Inr levels)"
  shows "distinct (map fst levels)"
    and "node_ids plan \<subseteq> fst ` set levels"
    and "fst ` set levels \<subseteq> node_ids plan \<union> target ` set (edges plan)"
    and "\<forall>v l. map_of levels v = Some l \<longrightarrow> 0 \<le> l"
    and "nodes plan \<noteq> []"
proof -
  from assms obtain lv0 q0 lvF where
    start: "fallback_start (nodes plan)
       (seed_sources (build_incoming (edges plan)) (nodes plan) ([], [])) = Inr (lv0, q0)"
    and inv: "layering_inv (edges plan) (fst ` set lv0) lvF []"
    and lev: "levels = default_levels (nodes plan) lvF"
    by (rule assign_layers_result)
  from inv have d: "distinct (map fst lvF)"
    and k: "fst ` set lvF \<subseteq> fst ` set lv0 \<union> target ` set (edges plan)"
    and nn: "\<forall>v l. map_of lvF v = Some l \<longrightarrow> 0 \<le> l"
    by (simp_all add: layering_inv_def)
  show "distinct (map fst levels)" unfolding lev using d by (rule distinct_default_levels)
  show "node_ids plan \<subseteq> fst ` set levels"
    by (auto simp: lev keys_default_levels node_ids_def)
  show "fst ` set levels \<subseteq> node_ids plan \<union> target ` set (edges plan)"
    using k start_state(5) [OF start] by (auto simp: lev keys_default_levels node_ids_def)
  show "\<forall>v l. map_of levels v = Some l \<longrightarrow> 0 \<le> l"
    using nn by (auto simp: lev map_of_default_levels split: option.splits if_splits)
  show "nodes plan \<noteq> []" using start by (rule start_state(6))
qed

subsection \<open>The result of a layout that succeeds\<close>

lemma set_layer_column: "set (layer_column lv l) = {v. (v, l) \<in> set lv}"
  by (auto simp: layer_column_def image_iff)

lemma set_occupied_layers: "set (occupied_layers lv) = snd ` set lv"
  by (simp add: occupied_layers_def)

lemma compute_layout_result:
  "compute_layout plan cs = Some (Inr res) \<longleftrightarrow>
     (\<exists>levels. assign_layers plan = Some (Inr levels) \<and>
        fst ` set levels \<subseteq> node_ids plan \<and>
        res = \<lparr>width = fst (canvas cs), height = snd (canvas cs),
                nodes_out = layout_nodes (node_map plan) levels (snd (canvas cs)) 0
                              (occupied_layers levels),
                edges_out = edges plan\<rparr>)"
proof -
  obtain w h where c: "canvas cs = (w, h)" by (cases "canvas cs")
  have keys: "(\<forall>l\<in>set (occupied_layers lv). \<forall>v\<in>set (layer_column lv l).
                 map_of (node_map plan) v \<noteq> None) \<longleftrightarrow> fst ` set lv \<subseteq> node_ids plan" for lv
    by (auto simp: set_layer_column set_occupied_layers node_map_None image_iff)
  show ?thesis
  proof (cases "assign_layers plan")
    case None
    then show ?thesis by (simp add: compute_layout_def split: prod.splits)
  next
    case (Some r)
    show ?thesis
    proof (cases r)
      case (Inl e)
      with Some show ?thesis by (simp add: compute_layout_def split: prod.splits)
    next
      case (Inr levels)
      let ?pl = "place_levels (node_map plan) (build_columns levels) h 0 (occupied_layers levels) []"
      have "compute_layout plan cs =
          (case ?pl of Inl e \<Rightarrow> Some (Inl e)
           | Inr ns \<Rightarrow> Some (Inr \<lparr>width = w, height = h, nodes_out = ns, edges_out = edges plan\<rparr>))"
        using Some Inr c by (simp add: compute_layout_def canvas_def sorted_levels_eq)
      then show ?thesis
        using Some Inr c keys [of levels] place_levels_result [of "node_map plan" levels h 0 "occupied_layers levels" "[]"]
        by (cases ?pl) auto
    qed
  qed
qed

subsection \<open>The positioned nodes of a result\<close>

lemma length_column_nodes: "length (column_nodes nl x y0 i col) = length col"
  by (induction col arbitrary: i) simp_all

lemma nth_column_nodes:
  "j < length col \<Longrightarrow>
     column_nodes nl x y0 i col ! j =
       place (the (map_of nl (col ! j))) x (y0 + real (i + j) * snd NODE_SPACING)"
proof (induction col arbitrary: i j)
  case Nil
  then show ?case by simp
next
  case (Cons v vs)
  then show ?case by (cases j) (simp_all add: ac_simps)
qed

lemma set_column_nodes:
  "set (column_nodes nl x y0 0 col) =
     {place (the (map_of nl (col ! j))) x (y0 + real j * snd NODE_SPACING) |j. j < length col}"
proof -
  let ?f = "\<lambda>j. place (the (map_of nl (col ! j))) x (y0 + real j * snd NODE_SPACING)"
  have "set (column_nodes nl x y0 0 col) = (!) (column_nodes nl x y0 0 col) ` {0..<length col}"
    using nth_image [of "length col" "column_nodes nl x y0 0 col"]
    by (simp add: length_column_nodes)
  also have "\<dots> = ?f ` {0..<length col}"
    by (intro image_cong) (simp_all add: nth_column_nodes)
  also have "\<dots> = {?f j |j. j < length col}" by auto
  finally show ?thesis .
qed

lemma identifier_place: "identifier (place n x y) = identifier n"
  by (simp add: place_def)

lemma identifier_column_nodes:
  "\<forall>v\<in>set col. \<exists>n. map_of nl v = Some n \<and> identifier n = v \<Longrightarrow>
     map identifier (column_nodes nl x y0 i col) = col"
  by (induction col arbitrary: i) (auto simp: identifier_place)

lemma identifier_layout_nodes:
  "\<forall>l\<in>set ls. \<forall>v\<in>set (layer_column lv l). \<exists>n. map_of nl v = Some n \<and> identifier n = v \<Longrightarrow>
     map identifier (layout_nodes nl lv h c ls) = concat (map (layer_column lv) ls)"
  by (induction ls arbitrary: c) (simp_all add: identifier_column_nodes)

lemma set_layout_nodes:
  "set (layout_nodes nl lv h c ls) =
     {place (the (map_of nl (layer_column lv (ls ! k) ! j)))
        (MARGIN + real (c + k) * fst NODE_SPACING)
        (y_start h (length (layer_column lv (ls ! k))) + real j * snd NODE_SPACING) |k j.
      k < length ls \<and> j < length (layer_column lv (ls ! k))}"
  (is "_ = ?R c ls")
proof (induction ls arbitrary: c)
  case Nil
  then show ?case by simp
next
  case (Cons l ls)
  let ?col = "column_nodes nl (MARGIN + real c * fst NODE_SPACING)
       (y_start h (length (layer_column lv l))) 0 (layer_column lv l)"
  have col: "set ?col =
      {place (the (map_of nl (layer_column lv l ! j))) (MARGIN + real c * fst NODE_SPACING)
         (y_start h (length (layer_column lv l)) + real j * snd NODE_SPACING) |j.
       j < length (layer_column lv l)}"
    by (rule set_column_nodes)
  have "?R c (l # ls) = set ?col \<union> ?R (Suc c) ls"
  proof (intro equalityI subsetI)
    fix p assume "p \<in> ?R c (l # ls)"
    then obtain k j where kj: "k < length (l # ls)" "j < length (layer_column lv ((l # ls) ! k))"
      and p: "p = place (the (map_of nl (layer_column lv ((l # ls) ! k) ! j)))
        (MARGIN + real (c + k) * fst NODE_SPACING)
        (y_start h (length (layer_column lv ((l # ls) ! k))) + real j * snd NODE_SPACING)"
      by blast
    show "p \<in> set ?col \<union> ?R (Suc c) ls"
    proof (cases k)
      case 0
      with kj p show ?thesis unfolding col by auto
    next
      case (Suc k')
      with kj p have "p \<in> ?R (Suc c) ls" by auto
      then show ?thesis by blast
    qed
  next
    fix p assume "p \<in> set ?col \<union> ?R (Suc c) ls"
    then show "p \<in> ?R c (l # ls)"
    proof
      assume "p \<in> set ?col"
      then obtain j where "j < length (layer_column lv l)"
        "p = place (the (map_of nl (layer_column lv l ! j))) (MARGIN + real c * fst NODE_SPACING)
         (y_start h (length (layer_column lv l)) + real j * snd NODE_SPACING)"
        unfolding col by blast
      then show ?thesis by (intro CollectI exI [of _ 0] exI [of _ j]) simp
    next
      assume "p \<in> ?R (Suc c) ls"
      then obtain k j where "k < length ls" "j < length (layer_column lv (ls ! k))"
        "p = place (the (map_of nl (layer_column lv (ls ! k) ! j)))
          (MARGIN + real (Suc c + k) * fst NODE_SPACING)
          (y_start h (length (layer_column lv (ls ! k))) + real j * snd NODE_SPACING)"
        by blast
      then show ?thesis by (intro CollectI exI [of _ "Suc k"] exI [of _ j]) simp
    qed
  qed
  with Cons.IH [of "Suc c"] show ?case by simp
qed

lemma find_distinct:
  "distinct (map f xs) \<Longrightarrow> x \<in> set xs \<Longrightarrow> find (\<lambda>y. f y = f x) xs = Some x"
  by (induction xs) (auto simp: image_iff)

lemma distinct_layer_column: "distinct (map fst lv) \<Longrightarrow> distinct (layer_column lv l)"
  by (simp add: layer_column_def distinct_map_filter)

lemma sorted_layer_column: "sorted (layer_column lv l)"
  by (simp add: layer_column_def)


lemma sorted_occupied_layers: "sorted (occupied_layers lv)"
  by (simp add: occupied_layers_def)

lemma distinct_occupied_layers: "distinct (occupied_layers lv)"
  by (simp add: occupied_layers_def)

lemma distinct_columns:
  assumes d: "distinct (map fst lv)"
  shows "distinct (concat (map (layer_column lv) (occupied_layers lv)))"
proof (rule distinct_concat)
  have "inj_on (layer_column lv) (set (occupied_layers lv))"
  proof (rule inj_onI)
    fix l l' assume l: "l \<in> set (occupied_layers lv)" and eq: "layer_column lv l = layer_column lv l'"
    from l obtain v where "(v, l) \<in> set lv" by (auto simp: set_occupied_layers)
    then have "v \<in> set (layer_column lv l)" by (simp add: set_layer_column)
    with eq have "(v, l') \<in> set lv" by (simp add: set_layer_column)
    with \<open>(v, l) \<in> set lv\<close> d show "l = l'" by (meson eq_key_imp_eq_value)
  qed
  then show "distinct (map (layer_column lv) (occupied_layers lv))"
    by (simp add: distinct_map distinct_occupied_layers)
  show "distinct ys" if "ys \<in> set (map (layer_column lv) (occupied_layers lv))" for ys
    using that d by (auto simp: distinct_layer_column)
  show "set ys \<inter> set zs = {}"
    if "ys \<in> set (map (layer_column lv) (occupied_layers lv))"
      "zs \<in> set (map (layer_column lv) (occupied_layers lv))" "ys \<noteq> zs" for ys zs
  proof -
    from that obtain l l' where "ys = layer_column lv l" "zs = layer_column lv l'" "l \<noteq> l'"
      by auto
    with d show ?thesis by (auto simp: set_layer_column dest: eq_key_imp_eq_value)
  qed
qed

lemma set_columns:
  "set (concat (map (layer_column lv) (occupied_layers lv))) = fst ` set lv"
  by (auto simp: set_layer_column set_occupied_layers image_iff) force

lemma index_of_nth: "distinct xs \<Longrightarrow> k < length xs \<Longrightarrow> index_of (xs ! k) xs = k"
proof (induction xs arbitrary: k)
  case Nil
  then show ?case by simp
next
  case (Cons x xs)
  then show ?case by (cases k) auto
qed

lemma layout_success:
  assumes ok: "compute_layout plan cs = Some (Inr res)"
  obtains levels where "assign_layers plan = Some (Inr levels)"
    and "distinct (map fst levels)"
    and "fst ` set levels = node_ids plan"
    and "width res = fst (canvas cs)" and "height res = snd (canvas cs)"
    and "edges_out res = edges plan"
    and "nodes_out res =
           layout_nodes (node_map plan) levels (height res) 0 (occupied_layers levels)"
    and "map identifier (nodes_out res) =
           concat (map (layer_column levels) (occupied_layers levels))"
    and "distinct (map identifier (nodes_out res))"
proof -
  from ok obtain levels where al: "assign_layers plan = Some (Inr levels)"
    and sub: "fst ` set levels \<subseteq> node_ids plan"
    and res: "res = \<lparr>width = fst (canvas cs), height = snd (canvas cs),
                nodes_out = layout_nodes (node_map plan) levels (snd (canvas cs)) 0
                              (occupied_layers levels),
                edges_out = edges plan\<rparr>"
    unfolding compute_layout_result by blast
  note f = assign_layers_facts [OF al]
  from sub f(2) have keys: "fst ` set levels = node_ids plan" by blast
  have n: "nodes_out res =
           layout_nodes (node_map plan) levels (height res) 0 (occupied_layers levels)"
    by (simp add: res)
  have "\<exists>n. map_of (node_map plan) v = Some n \<and> identifier n = v"
    if "l \<in> set (occupied_layers levels)" "v \<in> set (layer_column levels l)" for l v
  proof -
    from that(2) have "v \<in> fst ` set levels" by (force simp: set_layer_column)
    with keys have "map_of (node_map plan) v \<noteq> None" by (simp add: node_map_None)
    then show ?thesis using node_map_Some by blast
  qed
  then have ids: "map identifier (nodes_out res) =
           concat (map (layer_column levels) (occupied_layers levels))"
    unfolding n by (intro identifier_layout_nodes) blast
  have "distinct (map identifier (nodes_out res))"
    unfolding ids using f(1) by (rule distinct_columns)
  with al f(1) keys n ids show ?thesis by (intro that [of levels]) (simp_all add: res)
qed

lemma positioned_at:
  assumes al: "assign_layers plan = Some (Inr levels)"
    and keys: "fst ` set levels = node_ids plan"
    and n: "nodes_out res =
           layout_nodes (node_map plan) levels (height res) 0 (occupied_layers levels)"
    and d: "distinct (map identifier (nodes_out res))"
    and k: "k < length (occupied_layers levels)"
    and j: "j < length (layer_column levels (occupied_layers levels ! k))"
  shows "positioned res (layer_column levels (occupied_layers levels ! k) ! j) =
     Some (place (the (map_of (node_map plan) (layer_column levels (occupied_layers levels ! k) ! j)))
       (MARGIN + real k * fst NODE_SPACING)
       (y_start (height res) (length (layer_column levels (occupied_layers levels ! k)))
          + real j * snd NODE_SPACING))"
    (is "positioned res ?v = Some ?pn")
proof -
  have "?pn \<in> set (nodes_out res)"
    unfolding n set_layout_nodes using k j
    by (intro CollectI exI [of _ k] exI [of _ j]) simp
  moreover have "identifier ?pn = ?v"
  proof -
    from j have "?v \<in> set (layer_column levels (occupied_layers levels ! k))" by simp
    then have "?v \<in> fst ` set levels" by (force simp: set_layer_column)
    with keys have "map_of (node_map plan) ?v \<noteq> None" by (simp add: node_map_None)
    then show ?thesis using node_map_Some by (auto simp: identifier_place)
  qed
  ultimately show ?thesis
    using find_distinct [OF d, of ?pn] by (simp add: positioned_def)
qed

lemma level_position:
  assumes d: "distinct (map fst levels)" and v: "map_of levels v = Some l"
  obtains k j where "k < length (occupied_layers levels)" "occupied_layers levels ! k = l"
    "j < length (layer_column levels l)" "layer_column levels l ! j = v"
    "column_index levels v = Some k"
proof -
  from d v have m: "(v, l) \<in> set levels" by simp
  then have "l \<in> set (occupied_layers levels)" by (force simp: set_occupied_layers)
  then obtain k where k: "k < length (occupied_layers levels)" "occupied_layers levels ! k = l"
    by (auto simp: in_set_conv_nth)
  from m have "v \<in> set (layer_column levels l)" by (simp add: set_layer_column)
  then obtain j where j: "j < length (layer_column levels l)" "layer_column levels l ! j = v"
    by (auto simp: in_set_conv_nth)
  have "column_index levels v = Some k"
    using v k index_of_nth [OF distinct_occupied_layers k(1)]
    by (simp add: column_index_def)
  with k j show ?thesis by (rule that)
qed


lemma pos_x_place: "pos_x (place n x y) = x"
  by (simp add: place_def)

lemma sorted_wrt_concat_map:
  "(\<forall>x\<in>set xs. sorted_wrt Q (f x)) \<Longrightarrow>
   sorted_wrt (\<lambda>x y. \<forall>a\<in>set (f x). \<forall>b\<in>set (f y). Q a b) xs \<Longrightarrow>
     sorted_wrt Q (concat (map f xs))"
  by (induction xs) (auto simp: sorted_wrt_append)

lemma index_of_less_length: "a \<in> set xs \<Longrightarrow> index_of a xs < length xs"
  by (induction xs) auto

lemma index_of_mono:
  "sorted xs \<Longrightarrow> distinct xs \<Longrightarrow> a \<in> set xs \<Longrightarrow> b \<in> set xs \<Longrightarrow> a < b \<Longrightarrow>
     index_of a xs < index_of b xs"
  for a b :: "'a::linorder"
  by (induction xs) auto

lemma column_index_member:
  assumes d: "distinct (map fst levels)" and v: "v \<in> set (layer_column levels l)"
  shows "column_index levels v = Some (index_of l (occupied_layers levels))"
proof -
  from v have "(v, l) \<in> set levels" by (simp add: set_layer_column)
  with d have "map_of levels v = Some l" by simp
  then show ?thesis by (simp add: column_index_def)
qed

subsection \<open>Every node exactly once, in a layout that succeeds\<close>

lemma result_covers_nodes:
  assumes ok: "compute_layout plan canvas_size = Some (Inr res)"
    and dist: "distinct (map identifier (nodes plan))"
  shows "length (nodes_out res) = length (nodes plan)"
    and "distinct (map identifier (nodes_out res))"
    and "set (map identifier (nodes_out res)) = node_ids plan"
    and "\<forall>n\<in>set (nodes plan). \<exists>pn. positioned res (identifier n) = Some pn \<and>
           pn \<in> set (nodes_out res) \<and> identifier pn = identifier n \<and> label pn = label n \<and>
           node_type pn = node_type n \<and> metadata pn = metadata n"
    and "edges_out res = edges plan"
    and "width res = fst (canvas canvas_size)" and "height res = snd (canvas canvas_size)"
proof -
  from ok obtain levels where al: "assign_layers plan = Some (Inr levels)"
    and d: "distinct (map fst levels)"
    and keys: "fst ` set levels = node_ids plan"
    and w: "width res = fst (canvas canvas_size)" and h: "height res = snd (canvas canvas_size)"
    and e: "edges_out res = edges plan"
    and n: "nodes_out res =
           layout_nodes (node_map plan) levels (height res) 0 (occupied_layers levels)"
    and ids: "map identifier (nodes_out res) =
           concat (map (layer_column levels) (occupied_layers levels))"
    and dn: "distinct (map identifier (nodes_out res))"
    by (rule layout_success)
  show "distinct (map identifier (nodes_out res))" by (rule dn)
  show s: "set (map identifier (nodes_out res)) = node_ids plan"
    unfolding ids set_columns by (rule keys)
  have "length (nodes_out res) = card (set (map identifier (nodes_out res)))"
    using distinct_card [OF dn] by simp
  also have "\<dots> = card (set (map identifier (nodes plan)))"
    unfolding s by (simp add: node_ids_def)
  also have "\<dots> = length (nodes plan)" using distinct_card [OF dist] by simp
  finally show "length (nodes_out res) = length (nodes plan)" .
  show "\<forall>n\<in>set (nodes plan). \<exists>pn. positioned res (identifier n) = Some pn \<and>
           pn \<in> set (nodes_out res) \<and> identifier pn = identifier n \<and> label pn = label n \<and>
           node_type pn = node_type n \<and> metadata pn = metadata n"
  proof
    fix m assume m: "m \<in> set (nodes plan)"
    then have "identifier m \<in> fst ` set levels" unfolding keys by (simp add: node_ids_def)
    then obtain l where "map_of levels (identifier m) = Some l"
      unfolding keys_conv_dom by blast
    with d obtain k j where k: "k < length (occupied_layers levels)"
      "occupied_layers levels ! k = l" and j: "j < length (layer_column levels l)"
      "layer_column levels l ! j = identifier m"
      by (rule level_position)
    from positioned_at [OF al keys n dn k(1), of j] k(2) j node_map_distinct [OF dist m]
    obtain x y where p: "positioned res (identifier m) = Some (place m x y)" by auto
    then have "place m x y \<in> set (nodes_out res)"
      using find_Some_set [of _ "nodes_out res" "place m x y"] by (simp add: positioned_def)
    with p show "\<exists>pn. positioned res (identifier m) = Some pn \<and>
           pn \<in> set (nodes_out res) \<and> identifier pn = identifier m \<and> label pn = label m \<and>
           node_type pn = node_type m \<and> metadata pn = metadata m"
      by (intro exI [of _ "place m x y"]) (simp add: place_def)
  qed
  show "edges_out res = edges plan" "width res = fst (canvas canvas_size)"
    "height res = snd (canvas canvas_size)" by (rule e, rule w, rule h)
qed

subsection \<open>The layers of an acyclic plan\<close>

lemma fallback_start_nonempty:
  "ns \<noteq> [] \<Longrightarrow> \<exists>lv q. fallback_start ns st = Inr (lv, q)"
  by (cases st) (auto simp: fallback_start_def split: list.splits)

lemma map_of_default_levels_key:
  "map_of lv v = Some l \<Longrightarrow> map_of (default_levels ns lv) v = Some l"
  by (simp add: map_of_default_levels)

lemma assign_layers_acyclic:
  assumes ac: "acyclic (edge_rel (edges plan))" and ep: "endpoints_present plan"
    and ne: "nodes plan \<noteq> []"
  obtains levels where "assign_layers plan = Some (Inr levels)"
    and "fst ` set levels = node_ids plan"
    and "\<forall>e\<in>set (edges plan). \<exists>ls lt. map_of levels (source e) = Some ls \<and>
           map_of levels (target e) = Some lt \<and> ls + 1 \<le> lt"
proof -
  let ?es = "edges plan" and ?inc = "build_incoming (edges plan)"
  from fallback_start_nonempty [OF ne] obtain lv0 q0
    where start: "fallback_start (nodes plan) (seed_sources ?inc (nodes plan) ([], [])) = Inr (lv0, q0)"
    by blast
  note st = start_state [OF start]
  from relax_loop_acyclic_terminates [OF ac st(3)]
  obtain r where run: "relax_loop (build_outgoing ?es) lv0 q0 = Some r" by blast
  from relax_loop_layering [OF run start_layering_inv [OF start]]
  obtain lvF where r: "r = Inr lvF" and inv: "layering_inv ?es (fst ` set lv0) lvF []" by blast
  from inv have D: "fst ` set lv0 \<subseteq> dom (map_of lvF)"
    and K: "dom (map_of lvF) \<subseteq> fst ` set lv0 \<union> target ` set ?es"
    and E: "\<And>e ls. e \<in> set ?es \<Longrightarrow> map_of lvF (source e) = Some ls \<Longrightarrow>
           \<exists>lt. map_of lvF (target e) = Some lt \<and> ls + 1 \<le> lt"
    unfolding layering_inv_def keys_conv_dom by auto
  have "wf (edge_rel ?es)"
    using ac by (intro finite_acyclic_wf) (simp_all add: edge_rel_def)
  then have reached: "v \<in> node_ids plan \<longrightarrow> v \<in> dom (map_of lvF)" for v
  proof (induction v rule: wf_induct_rule)
    case (less v)
    show ?case
    proof
      assume v: "v \<in> node_ids plan"
      show "v \<in> dom (map_of lvF)"
      proof (cases "v \<in> target ` set ?es")
        case False
        then have "map_of ?inc v = None" by (simp add: incoming_key_iff)
        with v st(4) have "v \<in> fst ` set lv0" by (auto simp: node_ids_def)
        with D show ?thesis by blast
      next
        case True
        then obtain e where e: "e \<in> set ?es" "target e = v" by auto
        with ep have "source e \<in> node_ids plan" by (simp add: endpoints_present_def)
        moreover from e have "(source e, v) \<in> edge_rel ?es" by (auto simp: edge_rel_def)
        ultimately have "source e \<in> dom (map_of lvF)" using less by blast
        then obtain ls where "map_of lvF (source e) = Some ls" by blast
        from E [OF e(1) this] e(2) show ?thesis by auto
      qed
    qed
  qed
  let ?levels = "default_levels (nodes plan) lvF"
  have al: "assign_layers plan = Some (Inr ?levels)"
    using start run r by (simp add: assign_layers_def)
  have tn: "target ` set ?es \<subseteq> node_ids plan"
    using ep by (auto simp: endpoints_present_def)
  from st(5) have "fst ` set lv0 \<subseteq> node_ids plan" by (simp add: node_ids_def)
  then have "fst ` set lv0 \<union> target ` set ?es \<subseteq> node_ids plan" using tn by (rule Un_least)
  with K have "dom (map_of lvF) \<subseteq> node_ids plan" by (rule subset_trans)
  then have "fst ` set lvF \<subseteq> node_ids plan" by (simp add: keys_conv_dom)
  then have keys: "fst ` set ?levels = node_ids plan"
    unfolding keys_default_levels node_ids_def by blast
  have edges: "\<exists>ls lt. map_of ?levels (source e) = Some ls \<and>
           map_of ?levels (target e) = Some lt \<and> ls + 1 \<le> lt" if e: "e \<in> set ?es" for e
  proof -
    from e ep have "source e \<in> node_ids plan" by (simp add: endpoints_present_def)
    with reached obtain ls where ls: "map_of lvF (source e) = Some ls" by blast
    from E [OF e ls] obtain lt where "map_of lvF (target e) = Some lt" "ls + 1 \<le> lt" by blast
    with ls show ?thesis by (auto simp: map_of_default_levels_key)
  qed
  from al keys edges show ?thesis by (intro that [of ?levels]) blast+
qed

subsection \<open>The example plans, evaluated\<close>

lemma chain_layout: "compute_layout chain_plan None = Some (Inr chain_result)"
  by code_simp

lemma chain_layers: "assign_layers chain_plan = Some (Inr [(''a'', 0), (''b'', 1), (''c'', 2)])"
  by code_simp

lemma fan_out_layout: "compute_layout fan_out_plan None = Some (Inr fan_out_result)"
  by code_simp

lemma fan_out_layers:
  "assign_layers fan_out_plan = Some (Inr [(''a'', 0), (''b'', 1), (''c'', 1)])"
  by code_simp



subsection \<open>Failures of the placement\<close>

lemma compute_layout_error:
  assumes al: "assign_layers plan = Some (Inr levels)"
    and err: "compute_layout plan cs = Some (Inl e)"
  shows "\<exists>v. e = KeyError v \<and> v \<in> fst ` set levels \<and> v \<notin> node_ids plan"
proof -
  obtain w h where c: "canvas cs = (w, h)" by (cases "canvas cs")
  let ?pl = "place_levels (node_map plan) (build_columns levels) h 0 (occupied_layers levels) []"
  have "compute_layout plan cs =
      (case ?pl of Inl e \<Rightarrow> Some (Inl e)
       | Inr ns \<Rightarrow> Some (Inr \<lparr>width = w, height = h, nodes_out = ns, edges_out = edges plan\<rparr>))"
    using al c by (simp add: compute_layout_def canvas_def sorted_levels_eq)
  with err have "?pl = Inl e" by (cases ?pl) simp_all
  from place_levels_error [OF this] obtain l v where "v \<in> set (layer_column levels l)"
    "map_of (node_map plan) v = None" "e = KeyError v" by blast
  then show ?thesis by (force simp: set_layer_column node_map_None)
qed

lemma compute_layout_total:
  assumes al: "assign_layers plan = Some (Inr levels)"
  shows "\<exists>r. compute_layout plan cs = Some r"
  using al by (simp add: compute_layout_def Let_def split: prod.splits sum.splits)

subsection \<open>The exponent of a double, computed\<close>

lemma binade_eqI:
  assumes "2 powr real_of_int k \<le> \<bar>x\<bar>" "\<bar>x\<bar> < 2 powr real_of_int (k + 1)"
  shows "binade x = k"
proof -
  from assms have "0 < \<bar>x\<bar>" by (smt (verit) powr_gt_zero)
  then show ?thesis using assms
    by (simp add: binade_def floor_log_eq_powr_iff)
qed

lemma binade_large:
  assumes "1 \<le> \<bar>x\<bar>"
  shows "binade x = bitlen \<lfloor>\<bar>x\<bar>\<rfloor> - 1"
proof (rule binade_eqI)
  let ?n = "\<lfloor>\<bar>x\<bar>\<rfloor>"
  from assms have n: "0 < ?n" by simp
  from n have b: "1 \<le> bitlen ?n" by (simp add: bitlen_alt_def)
  note bb = bitlen_bounds [OF n]
  have "2 powr real_of_int (bitlen ?n - 1) = 2 ^ nat (bitlen ?n - 1)"
    using b by (simp add: powr_realpow [symmetric])
  also have "\<dots> \<le> real_of_int ?n" using bb
    by (metis of_int_le_iff of_int_numeral of_int_power)
  also have "\<dots> \<le> \<bar>x\<bar>" by simp
  finally show "2 powr real_of_int (bitlen ?n - 1) \<le> \<bar>x\<bar>" .
  have "?n + 1 \<le> 2 ^ nat (bitlen ?n)" using bb by simp
  then have "real_of_int (?n + 1) \<le> 2 ^ nat (bitlen ?n)"
    by (metis of_int_le_iff of_int_numeral of_int_power)
  moreover have "\<bar>x\<bar> < real_of_int (?n + 1)" by linarith
  moreover have "2 powr real_of_int (bitlen ?n - 1 + 1) = 2 ^ nat (bitlen ?n)"
    using b by (simp add: powr_realpow [symmetric])
  ultimately show "\<bar>x\<bar> < 2 powr real_of_int (bitlen ?n - 1 + 1)" by linarith
qed

lemma binade_small:
  assumes "x \<noteq> 0" "\<bar>x\<bar> < 1"
  shows "binade x = - bitlen (\<lceil>1 / \<bar>x\<bar>\<rceil> - 1)"
proof (rule binade_eqI)
  let ?y = "1 / \<bar>x\<bar>"
  let ?m = "\<lceil>?y\<rceil> - 1"
  from assms have y: "1 < ?y" by simp
  then have m: "0 < ?m" by linarith
  from m have b: "1 \<le> bitlen ?m" by (simp add: bitlen_alt_def)
  note bb = bitlen_bounds [OF m]
  have my: "real_of_int ?m < ?y" "?y \<le> real_of_int ?m + 1" by linarith+
  have "?m + 1 \<le> 2 ^ nat (bitlen ?m)" using bb by simp
  then have "real_of_int (?m + 1) \<le> 2 ^ nat (bitlen ?m)"
    by (metis of_int_le_iff of_int_numeral of_int_power)
  with my have "?y \<le> 2 ^ nat (bitlen ?m)" by linarith
  then have "1 / 2 ^ nat (bitlen ?m) \<le> \<bar>x\<bar>"
    using assms by (simp add: field_simps)
  moreover have "2 powr real_of_int (- bitlen ?m) = 1 / 2 ^ nat (bitlen ?m)"
    using b by (simp add: powr_minus powr_realpow [symmetric] field_simps)
  ultimately show "2 powr real_of_int (- bitlen ?m) \<le> \<bar>x\<bar>" by simp
  have "(2::real) ^ nat (bitlen ?m - 1) \<le> real_of_int ?m" using bb
    by (metis of_int_le_iff of_int_numeral of_int_power)
  with my have "2 ^ nat (bitlen ?m - 1) < ?y" by linarith
  then have "\<bar>x\<bar> < 1 / 2 ^ nat (bitlen ?m - 1)"
    using assms by (simp add: field_simps)
  moreover have "2 powr real_of_int (- bitlen ?m + 1) = 1 / 2 ^ nat (bitlen ?m - 1)"
  proof -
    have "- bitlen ?m + 1 = - (bitlen ?m - 1)" by simp
    then show ?thesis using b
      by (simp only: powr_minus of_int_minus) (simp add: powr_realpow [symmetric] field_simps)
  qed
  ultimately show "\<bar>x\<bar> < 2 powr real_of_int (- bitlen ?m + 1)" by simp
qed

lemma binade_code [code]:
  "binade x = (if 1 \<le> \<bar>x\<bar> then bitlen \<lfloor>\<bar>x\<bar>\<rfloor> - 1
               else if x = 0 then 0 else - bitlen (\<lceil>1 / \<bar>x\<bar>\<rceil> - 1))"
  by (simp add: binade_large binade_small) (simp add: binade_def)

subsection \<open>Placement in rounded arithmetic\<close>












text \<open>Without rounding, the rounded layout is the exact one.\<close>

lemma place_column_fl_exact:
  "place_column_fl (\<lambda>x. x) nl x y0 i col acc = place_column nl x y0 i col acc"
  by (induction col arbitrary: i acc)
     (simp_all add: fl_add_def fl_mul_def fl_of_int_def Let_def split: option.splits)

lemma place_levels_fl_exact:
  "place_levels_fl (\<lambda>x. x) nl columns h c ls acc = place_levels nl columns h c ls acc"
  by (induction ls arbitrary: c acc)
     (simp_all add: fl_add_def fl_mul_def fl_sub_def fl_div_def fl_of_int_def Let_def
        place_column_fl_exact split: sum.splits)

lemma compute_layout_fl_exact:
  "compute_layout_fl (\<lambda>x. x) plan canvas_size = compute_layout plan canvas_size"
  unfolding compute_layout_fl_def compute_layout_def place_levels_fl_exact by (rule refl)

subsection \<open>The fan-out plan in double arithmetic\<close>

lemma fan_out_layout_double:
  "compute_layout_fl round_double fan_out_plan None = Some (Inr fan_out_result)"
  by code_simp


text \<open>
  On a canvas of height 1000.1 (the double next to it) the two nodes of layer 1 are
  139.99999999999994 apart and not 140.
\<close>

lemma fan_out_layout_double_rounded:
  "compute_layout_fl round_double fan_out_plan (Some (800, round_double (10001 / 10))) =
     Some (Inr \<lparr>width = 800, height = 8796972631510221 / 8796093022208,
                nodes_out = [place (plain_node ''a'') 60 (7565519608401101 / 17592186044416),
                             place (plain_node ''b'') 260 (7565519608401101 / 17592186044416),
                             place (plain_node ''c'') 260 (2507106413654835 / 4398046511104)],
                edges_out = [plain_edge ''a'' ''b'', plain_edge ''a'' ''c'']\<rparr>) \<and>
   (2507106413654835 / 4398046511104 - 7565519608401101 / 17592186044416 :: real) =
     140 - 1 / 17592186044416"
  by code_simp

section \<open>Properties\<close>

subsection \<open>Plans with a cycle\<close>

text \<open>
  Claim C1: on every plan whose graph has a cycle (the 2-cycle \<open>a \<rightarrow> b\<close>, \<open>b \<rightarrow> a\<close> and
  self-loops among them) \<^verbatim>\<open>compute_layout\<close> ends and gives every node a layer that
  is not negative.

  The code does otherwise on the 2-cycle of scenario D: both nodes have an incoming edge,
  the fallback queues \<open>a\<close> at level 0, and from then on each pass over \<open>a\<close> raises \<open>b\<close>
  and each pass over \<open>b\<close> raises \<open>a\<close>, so the queue is never empty: the call does not
  return.
\<close>

theorem two_cycle_diverges: "compute_layout two_cycle_plan canvas_size = None"
proof -
  have start: "fallback_start (nodes two_cycle_plan)
      (seed_sources (build_incoming (edges two_cycle_plan)) (nodes two_cycle_plan) ([], []))
      = Inr ([(''a'', 0)], [''a''])"
    by (simp add: two_cycle_plan_def plain_plan_def plain_node_def plain_edge_def
        build_incoming_def fallback_start_def)
  have r: "edge_rel (edges two_cycle_plan) = {(''a'', ''b''), (''b'', ''a'')}"
    by (simp add: two_cycle_plan_def plain_plan_def plain_edge_def edge_rel_def)
  have cyc: "(''a'', ''a'') \<in> (edge_rel (edges two_cycle_plan))\<^sup>+"
    unfolding r by (rule trancl_into_trancl [of _ "''b''"]) auto
  have "assign_layers two_cycle_plan = None"
    using assign_layers_cycle_diverges [OF start _ _ cyc, of "''a''"] by simp
  then show ?thesis
    by (simp add: compute_layout_def split: option.splits prod.splits)
qed

subsection \<open>The plan without nodes\<close>

text \<open>
  Claim C2: a plan with an empty node list and an empty edge list is laid out without an
  error, as an empty result of the requested or default canvas size.

  The code does otherwise: no node is queued, so the fallback reads
  \<^verbatim>\<open>plan.nodes[0]\<close> of the empty list, and \<^verbatim>\<open>compute_layout\<close> ends with
  \<^verbatim>\<open>IndexError\<close> for every canvas size.
\<close>

theorem empty_plan_index_error:
  "compute_layout \<lparr>nodes = [], edges = [], title = t, description = d\<rparr> canvas_size
     = Some (Inl IndexError)"
  by (simp add: compute_layout_def assign_layers_def build_incoming_def build_outgoing_def
      fallback_start_def split: option.splits prod.splits)

subsection \<open>Edges to and from identifiers that are no nodes\<close>

text \<open>
  Claim C3: a plan with an edge whose source or target is no node of the plan is
  rejected explicitly, with a condition that names the dangling identifier; the edge is
  not silently accepted and the call does not fail with an unrelated lookup error.

  The code has no check of the endpoints. The plan of the node \<open>a\<close> and the edge
  \<open>x \<rightarrow> a\<close> is laid out as if the edge were sound, and the edge is handed on in the
  result.
\<close>

theorem dangling_source_accepted:
  "edges dangling_source_plan = [plain_edge ''x'' ''a''] \<and>
   ''x'' \<notin> node_ids dangling_source_plan \<and>
   compute_layout dangling_source_plan None =
     Some (Inr \<lparr>width = 800, height = 600,
                nodes_out = [place (plain_node ''a'') 60 230],
                edges_out = [plain_edge ''x'' ''a'']\<rparr>)"
  by code_simp

text \<open>
  Claim C3, as the code has it, on every plan on which the layering ends: \<^verbatim>\<open>compute_layout\<close>
  fails exactly when the layering gave a layer to an identifier that is no node; it then
  fails with the \<^verbatim>\<open>KeyError\<close> of \<^verbatim>\<open>node_lookup[node_id]\<close> in the placement, for
  such an identifier, which is the target of an edge. Otherwise the plan is laid out and
  its edges, dangling ones included, are returned unchanged.
\<close>

theorem dangling_reference_handling:
  assumes "assign_layers plan = Some (Inr levels)"
  shows "if fst ` set levels \<subseteq> node_ids plan
         then \<exists>res. compute_layout plan canvas_size = Some (Inr res) \<and>
                edges_out res = edges plan
         else \<exists>v. compute_layout plan canvas_size = Some (Inl (KeyError v)) \<and>
                v \<in> fst ` set levels \<and> v \<notin> node_ids plan \<and> v \<in> target ` set (edges plan)"
proof (cases "fst ` set levels \<subseteq> node_ids plan")
  case True
  with assms show ?thesis unfolding compute_layout_result by simp
next
  case False
  from compute_layout_total [OF assms] obtain r where r: "compute_layout plan canvas_size = Some r"
    by blast
  have "\<exists>e. r = Inl e"
  proof (cases r)
    case (Inr res)
    with r have "compute_layout plan canvas_size = Some (Inr res)" by simp
    then obtain levels' where "assign_layers plan = Some (Inr levels')"
      "fst ` set levels' \<subseteq> node_ids plan"
      unfolding compute_layout_result by blast
    with assms False show ?thesis by simp
  qed blast
  then obtain e where e: "compute_layout plan canvas_size = Some (Inl e)" using r by blast
  from compute_layout_error [OF assms e] obtain v where v: "e = KeyError v"
    "v \<in> fst ` set levels" "v \<notin> node_ids plan" by blast
  with assign_layers_facts(3) [OF assms] have "v \<in> target ` set (edges plan)" by blast
  with v e False show ?thesis by auto
qed

theorem dangling_reference_handling_witness:
  "assign_layers dangling_target_plan = Some (Inr [(''a'', 0), (''x'', 1)]) \<and>
   compute_layout dangling_target_plan None = Some (Inl (KeyError ''x''))"
proof -
  have al: "assign_layers dangling_target_plan = Some (Inr [(''a'', 0), (''x'', 1)])"
    by code_simp
  have ids: "node_ids dangling_target_plan = {''a''}"
    by (simp add: dangling_target_plan_def plain_plan_def plain_node_def node_ids_def)
  have ns: "\<not> fst ` set [(''a'', 0::int), (''x'', 1)] \<subseteq> node_ids dangling_target_plan"
    unfolding ids by simp
  have "\<exists>v. compute_layout dangling_target_plan None = Some (Inl (KeyError v)) \<and>
      v \<in> fst ` set [(''a'', 0::int), (''x'', 1)] \<and> v \<notin> node_ids dangling_target_plan \<and>
      v \<in> target ` set (edges dangling_target_plan)"
    using dangling_reference_handling [OF al, of None] ns by (simp only: if_False)
  then obtain v where v: "compute_layout dangling_target_plan None = Some (Inl (KeyError v))"
    "v \<in> fst ` set [(''a'', 0::int), (''x'', 1)]" "v \<notin> node_ids dangling_target_plan"
    by blast
  from v(2,3) have "v = ''x''" unfolding ids by simp
  with v(1) al show ?thesis by simp
qed

subsection \<open>Layers of a single node\<close>




subsection \<open>Acyclic plans\<close>

text \<open>
  Claim C5: on every acyclic plan whose edge endpoints are all nodes of the plan, every
  edge \<open>s \<rightarrow> t\<close> has \<open>layer(t) \<ge> layer(s) + 1\<close>, and so \<open>x(t) > x(s)\<close> in the result.

  On such a plan with an edge the loop ends (a rank that grows along every edge bounds
  the levels), the layering reaches every node, and the layout succeeds for every canvas
  size; the layers and the coordinates of the two ends of each edge are as claimed.
\<close>

theorem acyclic_edges_point_right:
  assumes "acyclic (edge_rel (edges plan))" and "endpoints_present plan"
    and "e \<in> set (edges plan)"
  shows "\<exists>levels res ls lt s t.
     assign_layers plan = Some (Inr levels) \<and>
     compute_layout plan canvas_size = Some (Inr res) \<and>
     map_of levels (source e) = Some ls \<and> map_of levels (target e) = Some lt \<and>
     ls + 1 \<le> lt \<and>
     positioned res (source e) = Some s \<and> positioned res (target e) = Some t \<and>
     pos_x s < pos_x t"
proof -
  from assms(2,3) have "nodes plan \<noteq> []"
    by (auto simp: endpoints_present_def node_ids_def)
  with assms(1,2) obtain levels where al: "assign_layers plan = Some (Inr levels)"
    and keys: "fst ` set levels = node_ids plan"
    and edges: "\<forall>e\<in>set (edges plan). \<exists>ls lt. map_of levels (source e) = Some ls \<and>
           map_of levels (target e) = Some lt \<and> ls + 1 \<le> lt"
    by (rule assign_layers_acyclic)
  from al keys obtain res where ok: "compute_layout plan canvas_size = Some (Inr res)"
    unfolding compute_layout_result by simp
  from ok obtain levels' where "assign_layers plan = Some (Inr levels')"
    and d': "distinct (map fst levels')"
    and n': "nodes_out res =
           layout_nodes (node_map plan) levels' (height res) 0 (occupied_layers levels')"
    and dn: "distinct (map identifier (nodes_out res))"
    by (rule layout_success)
  with al have d: "distinct (map fst levels)"
    and n: "nodes_out res =
           layout_nodes (node_map plan) levels (height res) 0 (occupied_layers levels)"
    by simp_all
  from edges assms(3) obtain ls lt where ls: "map_of levels (source e) = Some ls"
    and lt: "map_of levels (target e) = Some lt" and le: "ls + 1 \<le> lt" by blast
  let ?occ = "occupied_layers levels"
  have px: "\<exists>pn. positioned res v = Some pn \<and> pos_x pn = 60 + 200 * real (index_of l ?occ)"
    if "map_of levels v = Some l" for v l
  proof -
    from d that obtain k j where k: "k < length ?occ" "?occ ! k = l"
      and j: "j < length (layer_column levels l)" "layer_column levels l ! j = v"
      by (rule level_position)
    have "index_of l ?occ = k"
      using index_of_nth [OF distinct_occupied_layers k(1)] k(2) by simp
    with positioned_at [OF al keys n dn k(1), of j] k(2) j show ?thesis
      by (auto simp: pos_x_place MARGIN_def NODE_SPACING_def)
  qed
  from px [OF ls] obtain s where s: "positioned res (source e) = Some s"
    "pos_x s = 60 + 200 * real (index_of ls ?occ)" by blast
  from px [OF lt] obtain t where t: "positioned res (target e) = Some t"
    "pos_x t = 60 + 200 * real (index_of lt ?occ)" by blast
  have "ls \<in> set ?occ" "lt \<in> set ?occ"
    using ls lt d by (force simp: set_occupied_layers)+
  with le have "index_of ls ?occ < index_of lt ?occ"
    using sorted_occupied_layers distinct_occupied_layers by (intro index_of_mono) simp_all
  with s t have "pos_x s < pos_x t" by simp
  with al ok ls lt le s t show ?thesis by blast
qed

theorem acyclic_edges_point_right_witness:
  "acyclic (edge_rel (edges chain_plan)) \<and> endpoints_present chain_plan \<and>
   (\<exists>s t. positioned chain_result ''b'' = Some s \<and>
     positioned chain_result ''c'' = Some t \<and>
     pos_x s < pos_x t)"
proof -
  have ac: "acyclic (edge_rel (edges chain_plan))" by code_simp
  have ep: "endpoints_present chain_plan" by code_simp
  have e: "plain_edge ''b'' ''c'' \<in> set (edges chain_plan)"
    by (simp add: chain_plan_def plain_plan_def)
  from acyclic_edges_point_right [OF ac ep e, of None] chain_layout
  have "\<exists>s t. positioned chain_result (source (plain_edge ''b'' ''c'')) = Some s \<and>
     positioned chain_result (target (plain_edge ''b'' ''c'')) = Some t \<and>
     pos_x s < pos_x t"
    by force
  with ac ep show ?thesis by (simp add: plain_edge_def)
qed

subsection \<open>Stacking within a layer\<close>




subsection \<open>Columns\<close>

text \<open>
  Claim C7: on every plan on which the layout succeeds, the distinct occupied layer
  values, sorted ascending, are numbered 0, 1, 2, \<dots>, and every node of the layer with
  column index \<open>c\<close> gets \<open>x = 60 + c * 200\<close> (margin 60, horizontal spacing 200); a gap
  in the layer values leaves no empty column, since \<open>c\<close> is the position of the layer
  in the sorted list and not the layer value.

  \<open>occupied_layers levels\<close> is that sorted list; every identifier with a layer sits in
  the result at the column of its layer's position, and every emitted node is the node of
  an identifier with a layer.
\<close>

theorem columns_consecutive:
  assumes "compute_layout plan canvas_size = Some (Inr res)"
  shows "\<exists>levels. assign_layers plan = Some (Inr levels) \<and>
     sorted (occupied_layers levels) \<and> distinct (occupied_layers levels) \<and>
     set (occupied_layers levels) = snd ` set levels \<and>
     (\<forall>v l. map_of levels v = Some l \<longrightarrow>
        (\<exists>c pn. c < length (occupied_layers levels) \<and> occupied_layers levels ! c = l \<and>
           column_index levels v = Some c \<and> positioned res v = Some pn \<and>
           pos_x pn = 60 + real c * 200)) \<and>
     (\<forall>pn\<in>set (nodes_out res).
        positioned res (identifier pn) = Some pn \<and> map_of levels (identifier pn) \<noteq> None)"
proof -
  from assms obtain levels where al: "assign_layers plan = Some (Inr levels)"
    and d: "distinct (map fst levels)"
    and keys: "fst ` set levels = node_ids plan"
    and n: "nodes_out res =
           layout_nodes (node_map plan) levels (height res) 0 (occupied_layers levels)"
    and ids: "map identifier (nodes_out res) =
           concat (map (layer_column levels) (occupied_layers levels))"
    and dn: "distinct (map identifier (nodes_out res))"
    by (rule layout_success)
  have 1: "\<exists>c pn. c < length (occupied_layers levels) \<and> occupied_layers levels ! c = l \<and>
           column_index levels v = Some c \<and> positioned res v = Some pn \<and>
           pos_x pn = 60 + real c * 200" if "map_of levels v = Some l" for v l
  proof -
    from d that obtain k j where k: "k < length (occupied_layers levels)"
      "occupied_layers levels ! k = l" and j: "j < length (layer_column levels l)"
      "layer_column levels l ! j = v" and c: "column_index levels v = Some k"
      by (rule level_position)
    from positioned_at [OF al keys n dn k(1), of j] k(2) j
    obtain pn where "positioned res v = Some pn" "pos_x pn = MARGIN + real k * fst NODE_SPACING"
      by (auto simp: place_def)
    with k c show ?thesis by (auto simp: MARGIN_def NODE_SPACING_def)
  qed
  have 2: "positioned res (identifier pn) = Some pn \<and> map_of levels (identifier pn) \<noteq> None"
    if "pn \<in> set (nodes_out res)" for pn
  proof -
    from that have "identifier pn \<in> set (map identifier (nodes_out res))" by simp
    then have "identifier pn \<in> fst ` set levels" unfolding ids set_columns .
    then have "map_of levels (identifier pn) \<noteq> None"
      by (simp add: keys_conv_dom domIff)
    with find_distinct [OF dn that] show ?thesis by (simp add: positioned_def)
  qed
  from al 1 2 show ?thesis
    using sorted_occupied_layers distinct_occupied_layers set_occupied_layers by blast
qed

theorem columns_consecutive_witness:
  "compute_layout fan_out_plan None = Some (Inr fan_out_result) \<and>
   (\<exists>pn. positioned fan_out_result ''c'' = Some pn \<and> pos_x pn = 260)"
proof -
  from columns_consecutive [OF fan_out_layout] obtain levels
    where al: "assign_layers fan_out_plan = Some (Inr levels)"
      and P: "\<forall>v l. map_of levels v = Some l \<longrightarrow>
        (\<exists>c pn. c < length (occupied_layers levels) \<and> occupied_layers levels ! c = l \<and>
           column_index levels v = Some c \<and> positioned fan_out_result v = Some pn \<and>
           pos_x pn = 60 + real c * 200)"
    by blast
  from al fan_out_layers have lv: "levels = [(''a'', 0), (''b'', 1), (''c'', 1)]" by simp
  have "map_of levels ''c'' = Some 1" by (simp add: lv)
  with P obtain c pn where c: "column_index levels ''c'' = Some c"
    and pn: "positioned fan_out_result ''c'' = Some pn" "pos_x pn = 60 + real c * 200"
    by blast
  have "column_index levels ''c'' = Some 1" unfolding lv by code_simp
  with c have "c = 1" by simp
  with pn fan_out_layout show ?thesis by simp
qed

subsection \<open>Every node exactly once\<close>

text \<open>
  Claim C8: on every plan with unique identifiers and all edge endpoints among the nodes
  (empty, single-node, disconnected and cyclic plans included) the result has exactly one
  positioned node per node of the plan, with label, type and metadata unchanged, and the
  edges of the plan unchanged and in order.

  The code returns no result at all on the plan of one node with an edge to itself: the
  node is queued by the fallback, and each pass over it raises its own level and queues
  it again. Where a result is returned, it is as claimed: that is lemma
  \<open>result_covers_nodes\<close>.
\<close>

theorem self_loop_diverges: "compute_layout self_loop_plan canvas_size = None"
proof -
  have start: "fallback_start (nodes self_loop_plan)
      (seed_sources (build_incoming (edges self_loop_plan)) (nodes self_loop_plan) ([], []))
      = Inr ([(''a'', 0)], [''a''])"
    by (simp add: self_loop_plan_def plain_plan_def plain_node_def plain_edge_def
        build_incoming_def fallback_start_def)
  have cyc: "(''a'', ''a'') \<in> (edge_rel (edges self_loop_plan))\<^sup>+"
    by (simp add: self_loop_plan_def plain_plan_def plain_edge_def edge_rel_def)
  have "assign_layers self_loop_plan = None"
    using assign_layers_cycle_diverges [OF start _ _ cyc, of "''a''"] by simp
  then show ?thesis
    by (simp add: compute_layout_def split: option.splits prod.splits)
qed

subsection \<open>The order of the emitted nodes\<close>

text \<open>
  Claim C10: on every plan on which the layout succeeds, the positioned nodes of the
  result are in a globally sorted order: ascending by the column index of the node's
  layer, and within a column ascending lexicographically by identifier.

  \<open>placed_before levels a b\<close> says that \<open>a\<close> has the smaller column index, or the same
  column index and the smaller identifier; the list of emitted nodes is sorted with
  respect to it, every earlier node before every later one.
\<close>

theorem nodes_in_column_order:
  assumes "compute_layout plan canvas_size = Some (Inr res)"
  shows "\<exists>levels. assign_layers plan = Some (Inr levels) \<and>
           sorted_wrt (placed_before levels) (nodes_out res)"
proof -
  from assms obtain levels where al: "assign_layers plan = Some (Inr levels)"
    and d: "distinct (map fst levels)"
    and ids: "map identifier (nodes_out res) =
           concat (map (layer_column levels) (occupied_layers levels))"
    by (rule layout_success)
  let ?occ = "occupied_layers levels"
  let ?Q = "\<lambda>u v. case (column_index levels u, column_index levels v) of
        (Some ca, Some cb) \<Rightarrow> ca < cb \<or> (ca = cb \<and> u < v)
      | _ \<Rightarrow> False"
  have cols: "sorted_wrt ?Q (layer_column levels l)" for l
  proof -
    have "sorted_wrt (<) (layer_column levels l)"
      using sorted_layer_column [of levels l] distinct_layer_column [OF d, of l]
      by (simp add: strict_sorted_iff)
    then show ?thesis
      by (rule sorted_wrt_mono_rel [rotated]) (simp add: column_index_member [OF d])
  qed
  have "sorted_wrt (<) ?occ"
    using sorted_occupied_layers [of levels] distinct_occupied_layers [of levels]
    by (simp add: strict_sorted_iff)
  then have "sorted_wrt (\<lambda>l l'. \<forall>a\<in>set (layer_column levels l).
                 \<forall>b\<in>set (layer_column levels l'). ?Q a b) ?occ"
  proof (rule sorted_wrt_mono_rel [rotated])
    fix l l' assume l: "l \<in> set ?occ" "l' \<in> set ?occ" "l < l'"
    then have "index_of l ?occ < index_of l' ?occ"
      using sorted_occupied_layers distinct_occupied_layers by (intro index_of_mono)
    then show "\<forall>a\<in>set (layer_column levels l). \<forall>b\<in>set (layer_column levels l'). ?Q a b"
      by (simp add: column_index_member [OF d])
  qed
  with cols have "sorted_wrt ?Q (concat (map (layer_column levels) ?occ))"
    by (intro sorted_wrt_concat_map) simp_all
  then have "sorted_wrt ?Q (map identifier (nodes_out res))" by (simp only: ids)
  then have "sorted_wrt (placed_before levels) (nodes_out res)"
    by (simp add: sorted_wrt_map placed_before_def [abs_def])
  with al show ?thesis by blast
qed

theorem nodes_in_column_order_witness:
  "compute_layout fan_out_plan None = Some (Inr fan_out_result) \<and>
   sorted_wrt (placed_before [(''a'', 0), (''b'', 1), (''c'', 1)]) (nodes_out fan_out_result)"
proof -
  from nodes_in_column_order [OF fan_out_layout] fan_out_layers fan_out_layout
  show ?thesis by auto
qed

end
